theory Spec2Isabelle
  imports Complex_Main "HOL-Library.Char_ord" "HOL-Library.List_Lexorder" "HOL-Library.Multiset"
begin

section \<open>Data model (types.tsx)\<close>

text \<open>
  JavaScript numbers that hold identifiers, scores, counts and page numbers are modelled
  as \<open>int\<close>; they come from the JSON document, from \<open>length\<close> and from \<open>parseInt\<close> and
  stay far below \<open>2^53\<close>. JavaScript strings are modelled as \<open>string\<close>, a list of 8-bit
  code units (the Latin-1 range of UTF-16). Where text beyond Latin-1 changes what the
  code does, in the search of the leads view, the operation is modelled a second time on
  code units given as numbers, and the two models are proved to agree on Latin-1.
\<close>

datatype LeadStatus = New | Contacted | Qualified

record Lead =
  lead_id :: int
  lead_name :: string
  company :: string
  email :: string
  source :: string
  score :: int
  status :: LeadStatus

record Opportunity =
  opp_id :: int
  opp_name :: string
  stage :: string
  amount :: "int option"
  accountName :: string
  leadId :: int

section \<open>Math.random and the opportunity amount (App.tsx)\<close>

text \<open>
  \<open>Math.random()\<close> returns a double in \<open>[0, 1)\<close>. Every such double is
  \<open>mantissa / 2 ^ scale\<close> with a significand below \<open>2^53\<close> and a scale of at most
  1074 (the smallest subnormal is \<open>2^-1074\<close>), and every such fraction below 1 is a double.
\<close>

record RandomDraw =
  mantissa :: nat
  scale :: nat

definition is_random_draw :: "RandomDraw \<Rightarrow> bool" where
  "is_random_draw d \<longleftrightarrow>
     mantissa d < 2 ^ 53 \<and> scale d \<le> 1074 \<and> mantissa d < 2 ^ scale d"

fun bit_length :: "nat \<Rightarrow> nat" where
  "bit_length n = (if n = 0 then 0 else Suc (bit_length (n div 2)))"

declare bit_length.simps [simp del]

text \<open>
  IEEE 754 multiplication computes the exact product and rounds it to 53 significant
  bits, ties to the even significand. \<open>round_significand n\<close> does that to the numerator
  \<open>n\<close> of a fraction \<open>n / 2 ^ k\<close>; with \<open>k \<le> 1074\<close> a numerator of more than 53 bits is
  in the normal range, and one of at most 53 bits is representable as it is.
\<close>

definition round_significand :: "nat \<Rightarrow> nat" where
  "round_significand n =
     (let b = bit_length n in
      if b \<le> 53 then n
      else
        let s = b - 53;
            q = n div 2 ^ s;
            r = n mod 2 ^ s;
            h = 2 ^ (s - 1)
        in (if r > h \<or> (r = h \<and> odd q) then q + 1 else q) * 2 ^ s)"

text \<open>\<open>Math.floor(Math.random() * 100000) + 10000\<close>; the floor and the sum are exact.\<close>

definition randomAmount :: "RandomDraw \<Rightarrow> int" where
  "randomAmount d =
     int (round_significand (mantissa d * 100000) div 2 ^ scale d) + 10000"

section \<open>Application state owner (App.tsx)\<close>

datatype Tab = LeadsTab | OppsTab

record AppState =
  leads :: "Lead list"
  opportunities :: "Opportunity list"
  selectedLead :: "Lead option"
  isLoading :: bool
  isModalLoading :: bool
  error :: "string option"
  activeTab :: Tab

text \<open>
  A handler is a function from the state of the render that created it to the state
  React commits after the handler's queued updates, applied in the order of the calls.
  \<open>setX v\<close> stores a value, \<open>setX f\<close> applies an updater to the pending state.
\<close>

definition setLeads :: "(Lead list \<Rightarrow> Lead list) \<Rightarrow> AppState \<Rightarrow> AppState" where
  "setLeads f s = s\<lparr>leads := f (leads s)\<rparr>"

definition setOpportunities ::
  "(Opportunity list \<Rightarrow> Opportunity list) \<Rightarrow> AppState \<Rightarrow> AppState" where
  "setOpportunities f s = s\<lparr>opportunities := f (opportunities s)\<rparr>"

definition setSelectedLead :: "Lead option \<Rightarrow> AppState \<Rightarrow> AppState" where
  "setSelectedLead v s = s\<lparr>selectedLead := v\<rparr>"

definition setActiveTab :: "Tab \<Rightarrow> AppState \<Rightarrow> AppState" where
  "setActiveTab t s = s\<lparr>activeTab := t\<rparr>"

definition setIsModalLoading :: "bool \<Rightarrow> AppState \<Rightarrow> AppState" where
  "setIsModalLoading b s = s\<lparr>isModalLoading := b\<rparr>"

text \<open>The state is Ready when the loading screen and the error screen are both off.\<close>

definition ready :: "AppState \<Rightarrow> bool" where
  "ready s \<longleftrightarrow> \<not> isLoading s \<and> error s = None"

definition handleLeadSelect :: "Lead \<Rightarrow> AppState \<Rightarrow> AppState" where
  "handleLeadSelect lead s = setSelectedLead (Some lead) (setIsModalLoading True s)"

definition handleLeadUpdate :: "Lead \<Rightarrow> AppState \<Rightarrow> AppState" where
  "handleLeadUpdate updatedLead s =
     setSelectedLead (Some updatedLead)
       (setLeads (map (\<lambda>lead. if lead_id lead = lead_id updatedLead then updatedLead else lead)) s)"

text \<open>
  The object literal of \<open>handleConvertToOpportunity\<close>. \<open>opportunities.length\<close> is read
  from the state of the render; the handler runs on a click, after which React commits
  before the next event, so this is the state the updaters start from.
\<close>

definition newOpportunity :: "RandomDraw \<Rightarrow> Lead \<Rightarrow> AppState \<Rightarrow> Opportunity" where
  "newOpportunity rnd lead s =
     \<lparr>opp_id = int (length (opportunities s)) + 1,
      opp_name = lead_name lead,
      stage = ''Prospecting'',
      amount = Some (randomAmount rnd),
      accountName = company lead,
      leadId = lead_id lead\<rparr>"

definition handleConvertToOpportunity :: "RandomDraw \<Rightarrow> Lead \<Rightarrow> AppState \<Rightarrow> AppState" where
  "handleConvertToOpportunity rnd lead s =
     (let opp = newOpportunity rnd lead s;
          s1 = setOpportunities (\<lambda>prev. prev @ [opp]) s;
          updatedLead = lead\<lparr>status := Qualified\<rparr>;
          s2 = handleLeadUpdate updatedLead s1;
          s3 = setSelectedLead None s2
      in setActiveTab OppsTab s3)"

definition handleClosePanel :: "AppState \<Rightarrow> AppState" where
  "handleClosePanel s = setSelectedLead None s"


section \<open>Strings: toLowerCase, includes, toString, parseInt\<close>

text \<open>
  In the Latin-1 range \<open>String.prototype.toLowerCase\<close> maps every code unit on its own:
  \<open>A\<close>-\<open>Z\<close> and the accented capitals \<open>0xC0\<close>-\<open>0xDE\<close> (without the multiplication
  sign \<open>0xD7\<close>) move up by 32, every other code unit stays.
\<close>

definition toLowerCase_char :: "char \<Rightarrow> char" where
  "toLowerCase_char c =
     (let n = (of_char c :: nat) in
      if (65 \<le> n \<and> n \<le> 90) \<or> (192 \<le> n \<and> n \<le> 222 \<and> n \<noteq> 215)
      then char_of (n + 32) else c)"

definition toLowerCase :: "string \<Rightarrow> string" where
  "toLowerCase s = map toLowerCase_char s"

text \<open>\<open>hay.includes(needle)\<close>: some position of \<open>hay\<close> starts a copy of \<open>needle\<close>.\<close>

definition includes_str :: "'a list \<Rightarrow> 'a list \<Rightarrow> bool" where
  "includes_str hay needle \<longleftrightarrow>
     list_ex (\<lambda>k. take (length needle) (drop k hay) = needle) [0..<Suc (length hay)]"

subsection \<open>Text beyond Latin-1\<close>

text \<open>
  A JavaScript string is a sequence of UTF-16 code units, and outside the Latin-1 range
  \<open>toLowerCase\<close> is no longer a map of single code units: the Unicode rule for the
  Greek capital sigma looks at the letters around it. The functions below are
  \<open>toLowerCase\<close> on code units given as numbers, for text made of Latin-1 and the Greek
  letters \<open>U+0391\<close>-\<open>U+03A9\<close> and \<open>U+03B1\<close>-\<open>U+03C9\<close>; for other text the result is
  \<open>None\<close>, which says that the text is outside what is modelled.
\<close>

definition isGreekCapital :: "nat \<Rightarrow> bool" where
  "isGreekCapital u \<longleftrightarrow> 913 \<le> u \<and> u \<le> 937 \<and> u \<noteq> 930"

definition isGreekSmall :: "nat \<Rightarrow> bool" where
  "isGreekSmall u \<longleftrightarrow> 945 \<le> u \<and> u \<le> 969"

definition inRepertoire :: "nat \<Rightarrow> bool" where
  "inRepertoire u \<longleftrightarrow> u < 256 \<or> isGreekCapital u \<or> isGreekSmall u"

text \<open>The Unicode properties Cased and Case_Ignorable on these code points.\<close>

definition isCased :: "nat \<Rightarrow> bool" where
  "isCased u \<longleftrightarrow>
     (65 \<le> u \<and> u \<le> 90) \<or> (97 \<le> u \<and> u \<le> 122) \<or> u = 170 \<or> u = 181 \<or> u = 186
     \<or> (192 \<le> u \<and> u \<le> 214) \<or> (216 \<le> u \<and> u \<le> 246) \<or> (248 \<le> u \<and> u \<le> 255)
     \<or> isGreekCapital u \<or> isGreekSmall u"

definition isCaseIgnorable :: "nat \<Rightarrow> bool" where
  "isCaseIgnorable u \<longleftrightarrow> u \<in> {39, 46, 58, 94, 96, 168, 173, 175, 180, 183, 184}"

text \<open>A cased letter comes next, after any number of case-ignorable code points.\<close>

fun casedAfterIgnorable :: "nat list \<Rightarrow> bool" where
  "casedAfterIgnorable [] = False"
| "casedAfterIgnorable (u # us) =
     (if isCaseIgnorable u then casedAfterIgnorable us else isCased u)"

text \<open>
  The condition Final_Sigma: a cased letter before (\<open>seen\<close> holds the code units
  before the sigma, the nearest first) and none after.
\<close>

definition finalSigma :: "nat list \<Rightarrow> nat list \<Rightarrow> bool" where
  "finalSigma seen rest \<longleftrightarrow> casedAfterIgnorable seen \<and> \<not> casedAfterIgnorable rest"

definition toLowerCase_unit :: "nat \<Rightarrow> nat" where
  "toLowerCase_unit u =
     (if (65 \<le> u \<and> u \<le> 90) \<or> (192 \<le> u \<and> u \<le> 222 \<and> u \<noteq> 215) \<or> isGreekCapital u
      then u + 32 else u)"

text \<open>The capital sigma \<open>U+03A3\<close> (931) becomes \<open>U+03C2\<close> (962) where it is final.\<close>

fun lowerFrom :: "nat list \<Rightarrow> nat list \<Rightarrow> nat list" where
  "lowerFrom seen [] = []"
| "lowerFrom seen (u # us) =
     (if u = 931 \<and> finalSigma seen us then 962 else toLowerCase_unit u)
       # lowerFrom (u # seen) us"

definition toLowerCase_utf16 :: "nat list \<Rightarrow> nat list option" where
  "toLowerCase_utf16 s = (if list_all inRepertoire s then Some (lowerFrom [] s) else None)"

text \<open>White space of the Latin-1 range, as \<open>\s\<close> and \<open>parseInt\<close> see it.\<close>

definition isWhiteSpace :: "char \<Rightarrow> bool" where
  "isWhiteSpace c \<longleftrightarrow> (of_char c :: nat) \<in> {9, 10, 11, 12, 13, 32, 160}"

fun digits :: "nat \<Rightarrow> string" where
  "digits n =
     (if n < 10 then [char_of (48 + n)]
      else digits (n div 10) @ [char_of (48 + n mod 10)])"

declare digits.simps [simp del]

text \<open>\<open>Number.prototype.toString\<close> on an integer.\<close>

definition toString :: "int \<Rightarrow> string" where
  "toString i = (if i < 0 then CHR ''-'' # digits (nat (- i)) else digits (nat i))"

definition digitValue :: "nat \<Rightarrow> char \<Rightarrow> nat option" where
  "digitValue radix c =
     (let n = (of_char c :: nat);
          v = (if 48 \<le> n \<and> n \<le> 57 then Some (n - 48)
               else if 97 \<le> n \<and> n \<le> 122 then Some (n - 87)
               else if 65 \<le> n \<and> n \<le> 90 then Some (n - 55)
               else None)
      in case v of None \<Rightarrow> None | Some d \<Rightarrow> if d < radix then Some d else None)"

fun parseDigits :: "nat \<Rightarrow> nat option \<Rightarrow> string \<Rightarrow> nat option" where
  "parseDigits radix acc [] = acc"
| "parseDigits radix acc (c # cs) =
     (case digitValue radix c of
        None \<Rightarrow> acc
      | Some d \<Rightarrow> parseDigits radix (Some ((case acc of None \<Rightarrow> 0 | Some a \<Rightarrow> a) * radix + d)) cs)"

text \<open>
  \<open>parseInt(s)\<close> without a radix: leading white space, a sign, a \<open>0x\<close> prefix for
  base 16, then the longest run of digits; \<open>None\<close> is \<open>NaN\<close>.
\<close>

definition parseInt :: "string \<Rightarrow> int option" where
  "parseInt s =
     (let t = dropWhile isWhiteSpace s;
          neg = (t \<noteq> [] \<and> hd t = CHR ''-'');
          u = (if t \<noteq> [] \<and> (hd t = CHR ''-'' \<or> hd t = CHR ''+'') then tl t else t);
          hex = (take 2 u = ''0x'' \<or> take 2 u = ''0X'');
          r = (if hex then parseDigits 16 None (drop 2 u) else parseDigits 10 None u)
      in case r of None \<Rightarrow> None | Some n \<Rightarrow> Some (if neg then - int n else int n))"

section \<open>Leads view (LeadsList.tsx)\<close>

datatype StatusFilter = All | Status LeadStatus

datatype SortBy = ByScore | ByName | ByCompany

datatype SortOrder = Asc | Desc

text \<open>The string each value is at run time.\<close>

fun LeadStatus_string :: "LeadStatus \<Rightarrow> string" where
  "LeadStatus_string New = ''New''"
| "LeadStatus_string Contacted = ''Contacted''"
| "LeadStatus_string Qualified = ''Qualified''"

fun StatusFilter_string :: "StatusFilter \<Rightarrow> string" where
  "StatusFilter_string All = ''All''"
| "StatusFilter_string (Status st) = LeadStatus_string st"

fun SortBy_string :: "SortBy \<Rightarrow> string" where
  "SortBy_string ByScore = ''score''"
| "SortBy_string ByName = ''name''"
| "SortBy_string ByCompany = ''company''"

fun SortOrder_string :: "SortOrder \<Rightarrow> string" where
  "SortOrder_string Asc = ''asc''"
| "SortOrder_string Desc = ''desc''"

text \<open>The casts \<open>saved as ...\<close>: the value a stored string is, when it is one.\<close>

definition asStatusFilter :: "string \<Rightarrow> StatusFilter option" where
  "asStatusFilter s =
     (if s = ''New'' then Some (Status New)
      else if s = ''Contacted'' then Some (Status Contacted)
      else if s = ''Qualified'' then Some (Status Qualified)
      else if s = ''All'' then Some All
      else None)"

definition asSortBy :: "string \<Rightarrow> SortBy option" where
  "asSortBy s =
     (if s = ''score'' then Some ByScore
      else if s = ''name'' then Some ByName
      else if s = ''company'' then Some ByCompany
      else None)"

definition asSortOrder :: "string \<Rightarrow> SortOrder option" where
  "asSortOrder s =
     (if s = ''asc'' then Some Asc else if s = ''desc'' then Some Desc else None)"

record ViewState =
  searchTerm :: string
  statusFilter :: StatusFilter
  sortBy :: SortBy
  sortOrder :: SortOrder
  currentPage :: int
  pageSize :: int
  isPageLoading :: bool

text \<open>The initial values of the \<open>useState\<close> calls.\<close>

definition initialView :: ViewState where
  "initialView =
     \<lparr>searchTerm = [], statusFilter = All, sortBy = ByScore, sortOrder = Desc,
      currentPage = 1, pageSize = 10, isPageLoading = False\<rparr>"

subsection \<open>Preferences in localStorage\<close>

type_synonym Storage = "string \<rightharpoonup> string"

text \<open>
  The initializer that runs once when the view mounts. \<open>getItem\<close> gives \<open>null\<close> for a
  missing key, and \<open>null\<close> and the empty string are both falsy.
\<close>

definition loadSearch :: "Storage \<Rightarrow> ViewState \<Rightarrow> ViewState" where
  "loadSearch st v =
     (case st ''leads-search'' of
        None \<Rightarrow> v
      | Some savedSearch \<Rightarrow> if savedSearch \<noteq> [] then v\<lparr>searchTerm := savedSearch\<rparr> else v)"

definition loadStatus :: "Storage \<Rightarrow> ViewState \<Rightarrow> ViewState" where
  "loadStatus st v =
     (case st ''leads-status-filter'' of
        None \<Rightarrow> v
      | Some savedStatus \<Rightarrow>
          if savedStatus \<noteq> [] \<and> savedStatus \<in> set [''New'', ''Contacted'', ''Qualified'', ''All'']
          then (case asStatusFilter savedStatus of
                  Some f \<Rightarrow> v\<lparr>statusFilter := f\<rparr> | None \<Rightarrow> v)
          else v)"

definition loadSortBy :: "Storage \<Rightarrow> ViewState \<Rightarrow> ViewState" where
  "loadSortBy st v =
     (case st ''leads-sort-by'' of
        None \<Rightarrow> v
      | Some savedSortBy \<Rightarrow>
          if savedSortBy \<noteq> [] \<and> savedSortBy \<in> set [''score'', ''name'', ''company'']
          then (case asSortBy savedSortBy of Some k \<Rightarrow> v\<lparr>sortBy := k\<rparr> | None \<Rightarrow> v)
          else v)"

definition loadSortOrder :: "Storage \<Rightarrow> ViewState \<Rightarrow> ViewState" where
  "loadSortOrder st v =
     (case st ''leads-sort-order'' of
        None \<Rightarrow> v
      | Some savedSortOrder \<Rightarrow>
          if savedSortOrder \<noteq> [] \<and> savedSortOrder \<in> set [''asc'', ''desc'']
          then (case asSortOrder savedSortOrder of Some d \<Rightarrow> v\<lparr>sortOrder := d\<rparr> | None \<Rightarrow> v)
          else v)"

definition loadPageSize :: "Storage \<Rightarrow> ViewState \<Rightarrow> ViewState" where
  "loadPageSize st v =
     (case st ''leads-page-size'' of
        None \<Rightarrow> v
      | Some savedPageSize \<Rightarrow>
          if savedPageSize \<noteq> [] \<and> savedPageSize \<in> set [''5'', ''10'', ''20'', ''50'']
          then (case parseInt savedPageSize of Some n \<Rightarrow> v\<lparr>pageSize := n\<rparr> | None \<Rightarrow> v)
          else v)"

definition loadSavedFilters :: "Storage \<Rightarrow> ViewState \<Rightarrow> ViewState" where
  "loadSavedFilters st v =
     loadPageSize st (loadSortOrder st (loadSortBy st (loadStatus st (loadSearch st v))))"

text \<open>Mounting the view: the initial values, then the saved ones.\<close>

definition mountLeadsList :: "Storage \<Rightarrow> ViewState" where
  "mountLeadsList st = loadSavedFilters st initialView"

text \<open>\<open>if (pageSize)\<close> skips a missing argument and the falsy number 0.\<close>

definition saveFilters ::
  "string \<Rightarrow> StatusFilter \<Rightarrow> SortBy \<Rightarrow> SortOrder \<Rightarrow> int option \<Rightarrow> Storage \<Rightarrow> Storage" where
  "saveFilters search status' sort' order' pageSize' st =
     (let st1 = st(''leads-search'' \<mapsto> search);
          st2 = st1(''leads-status-filter'' \<mapsto> StatusFilter_string status');
          st3 = st2(''leads-sort-by'' \<mapsto> SortBy_string sort');
          st4 = st3(''leads-sort-order'' \<mapsto> SortOrder_string order')
      in case pageSize' of
           None \<Rightarrow> st4
         | Some p \<Rightarrow> if p \<noteq> 0 then st4(''leads-page-size'' \<mapsto> toString p) else st4)"

subsection \<open>Change handlers\<close>

definition handleSearchChange :: "string \<Rightarrow> ViewState \<times> Storage \<Rightarrow> ViewState \<times> Storage" where
  "handleSearchChange value' = (\<lambda>(v, st).
     (v\<lparr>searchTerm := value'\<rparr>,
      saveFilters value' (statusFilter v) (sortBy v) (sortOrder v) None st))"

definition handleStatusFilterChange ::
  "StatusFilter \<Rightarrow> ViewState \<times> Storage \<Rightarrow> ViewState \<times> Storage" where
  "handleStatusFilterChange value' = (\<lambda>(v, st).
     (v\<lparr>statusFilter := value'\<rparr>,
      saveFilters (searchTerm v) value' (sortBy v) (sortOrder v) None st))"

definition handleSortChange :: "SortBy \<Rightarrow> ViewState \<times> Storage \<Rightarrow> ViewState \<times> Storage" where
  "handleSortChange field = (\<lambda>(v, st).
     (let newOrder = (if sortBy v = field \<and> sortOrder v = Desc then Asc else Desc)
      in (v\<lparr>sortBy := field, sortOrder := newOrder\<rparr>,
          saveFilters (searchTerm v) (statusFilter v) field newOrder None st)))"

definition handlePageSizeChange :: "int \<Rightarrow> ViewState \<times> Storage \<Rightarrow> ViewState \<times> Storage" where
  "handlePageSizeChange value' = (\<lambda>(v, st).
     (v\<lparr>pageSize := value', currentPage := 1\<rparr>,
      saveFilters (searchTerm v) (statusFilter v) (sortBy v) (sortOrder v) (Some value') st))"

text \<open>
  The effect with the dependencies \<open>[searchTerm, statusFilter, sortBy, sortOrder]\<close>:
  after a render in which one of them differs from the render before, it sets the page
  to 1.
\<close>

definition resetPageEffect :: "ViewState \<Rightarrow> ViewState \<Rightarrow> ViewState" where
  "resetPageEffect prev cur =
     (if searchTerm prev \<noteq> searchTerm cur \<or> statusFilter prev \<noteq> statusFilter cur
         \<or> sortBy prev \<noteq> sortBy cur \<or> sortOrder prev \<noteq> sortOrder cur
      then cur\<lparr>currentPage := 1\<rparr> else cur)"

subsection \<open>Filter and sort\<close>

definition matchesSearch :: "string \<Rightarrow> Lead \<Rightarrow> bool" where
  "matchesSearch term lead \<longleftrightarrow>
     includes_str (toLowerCase (lead_name lead)) (toLowerCase term)
     \<or> includes_str (toLowerCase (company lead)) (toLowerCase term)"

definition matchesStatus :: "StatusFilter \<Rightarrow> Lead \<Rightarrow> bool" where
  "matchesStatus f lead \<longleftrightarrow> f = All \<or> Status (status lead) = f"

definition filterLeads :: "string \<Rightarrow> StatusFilter \<Rightarrow> Lead list \<Rightarrow> Lead list" where
  "filterLeads term f ls = filter (\<lambda>lead. matchesSearch term lead \<and> matchesStatus f lead) ls"

text \<open>
  The callback of \<open>leads.filter\<close> on a lead whose name and company are given as code
  units: its result, or \<open>None\<close> when a text is outside what \<open>toLowerCase_utf16\<close> models.
\<close>

definition filterCallback_utf16 ::
  "nat list \<Rightarrow> StatusFilter \<Rightarrow> nat list \<Rightarrow> nat list \<Rightarrow> LeadStatus \<Rightarrow> bool option" where
  "filterCallback_utf16 term f name' company' status' =
     (case (toLowerCase_utf16 name', toLowerCase_utf16 company', toLowerCase_utf16 term) of
        (Some n, Some c, Some t) \<Rightarrow>
          Some ((includes_str n t \<or> includes_str c t) \<and> (f = All \<or> Status status' = f))
      | _ \<Rightarrow> None)"

definition compareValues :: "SortOrder \<Rightarrow> 'a::linorder \<Rightarrow> 'a \<Rightarrow> int" where
  "compareValues order' aValue bValue =
     (if aValue < bValue then (if order' = Asc then - 1 else 1)
      else if aValue > bValue then (if order' = Asc then 1 else - 1)
      else 0)"

text \<open>The comparator; strings compare by code units, a proper prefix first.\<close>

fun compareLeads :: "SortBy \<Rightarrow> SortOrder \<Rightarrow> Lead \<Rightarrow> Lead \<Rightarrow> int" where
  "compareLeads ByScore order' a b = compareValues order' (score a) (score b)"
| "compareLeads ByName order' a b =
     compareValues order' (toLowerCase (lead_name a)) (toLowerCase (lead_name b))"
| "compareLeads ByCompany order' a b =
     compareValues order' (toLowerCase (company a)) (toLowerCase (company b))"

text \<open>
  \<open>Array.prototype.sort\<close> is stable: with a consistent comparator its result is the
  one that inserting each element before the first one not smaller gives.
\<close>

fun insertSorted :: "('a \<Rightarrow> 'a \<Rightarrow> int) \<Rightarrow> 'a \<Rightarrow> 'a list \<Rightarrow> 'a list" where
  "insertSorted cmp x [] = [x]"
| "insertSorted cmp x (y # ys) =
     (if cmp x y \<le> 0 then x # y # ys else y # insertSorted cmp x ys)"

definition Array_sort :: "('a \<Rightarrow> 'a \<Rightarrow> int) \<Rightarrow> 'a list \<Rightarrow> 'a list" where
  "Array_sort cmp xs = foldr (insertSorted cmp) xs []"

definition filteredAndSortedLeads :: "Lead list \<Rightarrow> ViewState \<Rightarrow> Lead list" where
  "filteredAndSortedLeads ls v =
     Array_sort (compareLeads (sortBy v) (sortOrder v))
       (filterLeads (searchTerm v) (statusFilter v) ls)"

subsection \<open>Pagination\<close>

text \<open>
  \<open>Math.ceil(length / pageSize)\<close>; \<open>None\<close> stands for the values that are no
  integer (\<open>Infinity\<close> and \<open>NaN\<close>, when the page size is 0).
\<close>

definition totalPages :: "'a list \<Rightarrow> int \<Rightarrow> int option" where
  "totalPages xs pageSize' =
     (if pageSize' = 0 then None
      else Some \<lceil>rat_of_nat (length xs) / rat_of_int pageSize'\<rceil>)"

text \<open>\<open>Array.prototype.slice(start, end)\<close>: negative indices count from the end.\<close>

definition slice :: "'a list \<Rightarrow> int \<Rightarrow> int \<Rightarrow> 'a list" where
  "slice xs start end' =
     (let len = int (length xs);
          k = (if start < 0 then max (len + start) 0 else min start len);
          final = (if end' < 0 then max (len + end') 0 else min end' len)
      in take (nat (final - k)) (drop (nat k) xs))"

definition paginatedLeads :: "'a list \<Rightarrow> int \<Rightarrow> int \<Rightarrow> 'a list" where
  "paginatedLeads xs currentPage' pageSize' =
     (let startIndex = (currentPage' - 1) * pageSize';
          endIndex = startIndex + pageSize'
      in slice xs startIndex endIndex)"

section \<open>Lead detail panel (LeadDetailPanel.tsx)\<close>

subsection \<open>The regular expression\<close>

datatype ClassAtom = ClassWhiteSpace | ClassChar char

datatype Atom = PatternChar char | NegatedClass "ClassAtom list"

datatype Term = InputStart | InputEnd | Once Atom | OneOrMore Atom

fun classAtomMatches :: "ClassAtom \<Rightarrow> char \<Rightarrow> bool" where
  "classAtomMatches ClassWhiteSpace c = isWhiteSpace c"
| "classAtomMatches (ClassChar x) c = (c = x)"

fun atomMatches :: "Atom \<Rightarrow> char \<Rightarrow> bool" where
  "atomMatches (PatternChar x) c = (c = x)"
| "atomMatches (NegatedClass items) c = (\<not> list_ex (\<lambda>i. classAtomMatches i c) items)"

text \<open>
  A backtracking matcher: \<open>matchFrom ts i rest\<close> tells whether the terms \<open>ts\<close> match at
  index \<open>i\<close> of the input, \<open>rest\<close> being the input from there. \<open>+\<close> is greedy: it
  tries to go on before it lets the following terms match.
\<close>

fun matchFrom :: "Term list \<Rightarrow> nat \<Rightarrow> string \<Rightarrow> bool" where
  "matchFrom [] i rest = True"
| "matchFrom (InputStart # ts) i rest = (i = 0 \<and> matchFrom ts i rest)"
| "matchFrom (InputEnd # ts) i rest = (rest = [] \<and> matchFrom ts i rest)"
| "matchFrom (Once a # ts) i [] = False"
| "matchFrom (Once a # ts) i (c # cs) = (atomMatches a c \<and> matchFrom ts (Suc i) cs)"
| "matchFrom (OneOrMore a # ts) i [] = False"
| "matchFrom (OneOrMore a # ts) i (c # cs) =
     (atomMatches a c \<and> (matchFrom (OneOrMore a # ts) (Suc i) cs \<or> matchFrom ts (Suc i) cs))"

text \<open>\<open>RegExp.prototype.test\<close> without flags: a match may start at any index.\<close>

definition regexTest :: "Term list \<Rightarrow> string \<Rightarrow> bool" where
  "regexTest pattern s \<longleftrightarrow>
     list_ex (\<lambda>k. matchFrom pattern k (drop k s)) [0..<Suc (length s)]"

definition notSpaceNorAt :: Atom where
  "notSpaceNorAt = NegatedClass [ClassWhiteSpace, ClassChar (CHR ''@'')]"

definition emailRegex :: "Term list" where
  "emailRegex =
     [InputStart, OneOrMore notSpaceNorAt, Once (PatternChar (CHR ''@'')),
      OneOrMore notSpaceNorAt, Once (PatternChar (CHR ''.'')),
      OneOrMore notSpaceNorAt, InputEnd]"

definition validateEmail :: "string \<Rightarrow> bool" where
  "validateEmail email' \<longleftrightarrow> regexTest emailRegex email'"

subsection \<open>Panel state and Save\<close>

record PanelState =
  isEditing :: bool
  editedLead :: Lead
  errors_email :: "string option"
  isSaving :: bool

text \<open>\<open>Math.random() < 0.1\<close>; the literal is the double \<open>3602879701896397 / 2^55\<close>.\<close>

definition belowTenth :: "RandomDraw \<Rightarrow> bool" where
  "belowTenth d \<longleftrightarrow> mantissa d * 2 ^ 55 < 3602879701896397 * 2 ^ scale d"

text \<open>
  \<open>handleSave\<close> from the click to the end of the \<open>finally\<close> block, with no other event
  in between. \<open>onUpdate\<close> is the parent's callback, acting on the parent's state.
\<close>

definition handleSave ::
  "(Lead \<Rightarrow> 'p \<Rightarrow> 'p) \<Rightarrow> RandomDraw \<Rightarrow> PanelState \<times> 'p \<Rightarrow> PanelState \<times> 'p" where
  "handleSave onUpdate rnd = (\<lambda>(p, parent).
     if \<not> validateEmail (email (editedLead p))
     then (p\<lparr>errors_email := Some ''Please enter a valid email address''\<rparr>, parent)
     else if belowTenth rnd
     then (p\<lparr>errors_email := Some ''Failed to save changes. Please try again.'',
             isSaving := False\<rparr>, parent)
     else (p\<lparr>isEditing := False, errors_email := None, isSaving := False\<rparr>,
           onUpdate (editedLead p) parent))"

definition handleCancel :: "Lead \<Rightarrow> PanelState \<Rightarrow> PanelState" where
  "handleCancel lead p = p\<lparr>editedLead := lead, errors_email := None, isEditing := False\<rparr>"

section \<open>The specification's wording\<close>

text \<open>
  "Contains the search text as a case-insensitive substring": a stretch of the text
  that is the search text letter by letter, case aside.
\<close>

definition spec_contains_ci :: "string \<Rightarrow> string \<Rightarrow> bool" where
  "spec_contains_ci text' s \<longleftrightarrow>
     (\<exists>pre mid post. text' = pre @ mid @ post
        \<and> map toLowerCase_char mid = map toLowerCase_char s)"

definition spec_included :: "string \<Rightarrow> StatusFilter \<Rightarrow> Lead \<Rightarrow> bool" where
  "spec_included s f lead \<longleftrightarrow>
     (s = [] \<or> spec_contains_ci (lead_name lead) s \<or> spec_contains_ci (company lead) s)
     \<and> (f = All \<or> Status (status lead) = f)"

text \<open>
  The email shape: one or more characters that are neither white space nor \<open>@\<close>, then
  \<open>@\<close>, then one or more such characters, then a dot, then one or more such characters.
\<close>

definition spec_plain :: "string \<Rightarrow> bool" where
  "spec_plain u \<longleftrightarrow> u \<noteq> [] \<and> list_all (\<lambda>c. \<not> isWhiteSpace c \<and> c \<noteq> CHR ''@'') u"

definition spec_email_shape :: "string \<Rightarrow> bool" where
  "spec_email_shape e \<longleftrightarrow>
     (\<exists>a b c. e = a @ ''@'' @ b @ ''.'' @ c \<and> spec_plain a \<and> spec_plain b \<and> spec_plain c)"

section \<open>Example data\<close>

definition exampleLead :: Lead where
  "exampleLead =
     \<lparr>lead_id = 1, lead_name = ''Acme Corp Contact'', company = ''Acme Corp'',
      email = ''contact@acme.example'', source = ''Web'', score = 90, status = New\<rparr>"

definition otherLead :: Lead where
  "otherLead =
     \<lparr>lead_id = 2, lead_name = ''Bo Li'', company = ''Birch Ltd'',
      email = ''bo@birch.example'', source = ''Referral'', score = 75, status = Contacted\<rparr>"

definition strangerLead :: Lead where
  "strangerLead =
     \<lparr>lead_id = 7, lead_name = ''Cy Roe'', company = ''Cedar Inc'',
      email = ''cy@cedar.example'', source = ''Event'', score = 60, status = New\<rparr>"

definition exampleState :: AppState where
  "exampleState =
     \<lparr>leads = [exampleLead, otherLead], opportunities = [], selectedLead = Some exampleLead,
      isLoading = False, isModalLoading = False, error = None, activeTab = LeadsTab\<rparr>"

definition halfDraw :: RandomDraw where
  "halfDraw = \<lparr>mantissa = 1, scale = 1\<rparr>"

definition staleStorage :: Storage where
  "staleStorage =
     [''leads-search'' \<mapsto> [], ''leads-status-filter'' \<mapsto> ''Archived'',
      ''leads-sort-by'' \<mapsto> ''email'', ''leads-sort-order'' \<mapsto> ''up'',
      ''leads-page-size'' \<mapsto> ''7'']"

definition thirdPageView :: ViewState where
  "thirdPageView =
     \<lparr>searchTerm = [], statusFilter = All, sortBy = ByScore, sortOrder = Desc,
      currentPage = 3, pageSize = 10, isPageLoading = False\<rparr>"

definition twelveItems :: "nat list" where
  "twelveItems = [1, 2, 3, 4, 5, 6, 7, 8, 9, 10, 11, 12]"

definition acmeView :: ViewState where
  "acmeView =
     \<lparr>searchTerm = ''ACME'', statusFilter = All, sortBy = ByScore, sortOrder = Desc,
      currentPage = 1, pageSize = 10, isPageLoading = False\<rparr>"

definition maxDraw :: RandomDraw where
  "maxDraw = \<lparr>mantissa = 2 ^ 53 - 1, scale = 53\<rparr>"

definition editingPanel :: PanelState where
  "editingPanel =
     \<lparr>isEditing = True, editedLead = exampleLead\<lparr>email := ''not-an-email''\<rparr>,
      errors_email = None, isSaving = False\<rparr>"

text \<open>
  The name \<open>U+0398 0391 039B 0391 03A3 03A3 0391\<close> and the search text
  \<open>U+0391 03A3\<close>, four code units into the name.
\<close>

definition greekSearch :: "nat list" where
  "greekSearch = [913, 931]"

definition greekName :: "nat list" where
  "greekName = [920, 913, 923] @ greekSearch @ [931, 913]"

section \<open>Properties of the state owner\<close>

lemmas setters =
  setLeads_def setOpportunities_def setSelectedLead_def setActiveTab_def setIsModalLoading_def

lemma leads_handleLeadUpdate:
  "leads (handleLeadUpdate r s) =
     map (\<lambda>lead. if lead_id lead = lead_id r then r else lead) (leads s)"
  by (simp add: handleLeadUpdate_def setters)

lemma opportunities_handleLeadUpdate: "opportunities (handleLeadUpdate r s) = opportunities s"
  by (simp add: handleLeadUpdate_def setters)

lemma map_replace_absent:
  "\<forall>l \<in> set xs. f l \<noteq> k \<Longrightarrow> map (\<lambda>l. if f l = k then r else l) xs = xs"
  by (induction xs) auto

lemma leads_convert:
  "leads (handleConvertToOpportunity rnd X s) =
     map (\<lambda>lead. if lead_id lead = lead_id X then X\<lparr>status := Qualified\<rparr> else lead) (leads s)"
  by (simp add: handleConvertToOpportunity_def Let_def handleLeadUpdate_def setters)

lemma opportunities_convert:
  "opportunities (handleConvertToOpportunity rnd X s) = opportunities s @ [newOpportunity rnd X s]"
  by (simp add: handleConvertToOpportunity_def Let_def handleLeadUpdate_def setters)

lemma selectedLead_convert: "selectedLead (handleConvertToOpportunity rnd X s) = None"
  by (simp add: handleConvertToOpportunity_def Let_def handleLeadUpdate_def setters)

text \<open>
  Claim C1. Converting a lead \<open>X\<close> appends exactly one opportunity to the collection:
  its id is the number of opportunities before the call plus 1, its name is \<open>X\<close>'s name,
  its account name is \<open>X\<close>'s company and its stage is \<open>Prospecting\<close>. In the same
  resulting state the lead collection keeps its length and order, every record with
  \<open>X\<close>'s id is \<open>X\<close> with status \<open>Qualified\<close> (so \<open>X\<close>'s record is there when \<open>X\<close> was in
  the collection), the active selection is cleared, and a Ready state stays Ready.
\<close>

theorem convert_appends_and_qualifies:
  "opportunities (handleConvertToOpportunity rnd X s) = opportunities s @ [newOpportunity rnd X s]
   \<and> opp_id (newOpportunity rnd X s) = int (length (opportunities s)) + 1
   \<and> opp_name (newOpportunity rnd X s) = lead_name X
   \<and> accountName (newOpportunity rnd X s) = company X
   \<and> stage (newOpportunity rnd X s) = ''Prospecting''
   \<and> length (leads (handleConvertToOpportunity rnd X s)) = length (leads s)
   \<and> (\<forall>i < length (leads s).
        leads (handleConvertToOpportunity rnd X s) ! i =
          (if lead_id (leads s ! i) = lead_id X then X\<lparr>status := Qualified\<rparr> else leads s ! i))
   \<and> (\<forall>l \<in> set (leads (handleConvertToOpportunity rnd X s)).
        lead_id l = lead_id X \<longrightarrow> status l = Qualified)
   \<and> (X \<in> set (leads s) \<longrightarrow>
        X\<lparr>status := Qualified\<rparr> \<in> set (leads (handleConvertToOpportunity rnd X s)))
   \<and> selectedLead (handleConvertToOpportunity rnd X s) = None
   \<and> (ready s \<longrightarrow> ready (handleConvertToOpportunity rnd X s))"
proof -
  have ids: "\<forall>l \<in> set (leads (handleConvertToOpportunity rnd X s)).
        lead_id l = lead_id X \<longrightarrow> status l = Qualified"
    by (auto simp: leads_convert)
  have mem: "X \<in> set (leads s) \<longrightarrow>
        X\<lparr>status := Qualified\<rparr> \<in> set (leads (handleConvertToOpportunity rnd X s))"
    by (force simp: leads_convert)
  have rdy: "ready s \<longrightarrow> ready (handleConvertToOpportunity rnd X s)"
    by (simp add: ready_def handleConvertToOpportunity_def Let_def handleLeadUpdate_def setters)
  show ?thesis
    using ids mem rdy
    by (simp add: opportunities_convert selectedLead_convert leads_convert newOpportunity_def)
qed

theorem convert_appends_and_qualifies_witness:
  "ready exampleState \<and> exampleLead \<in> set (leads exampleState)
   \<and> length (opportunities (handleConvertToOpportunity halfDraw exampleLead exampleState)) = 1
   \<and> exampleLead\<lparr>status := Qualified\<rparr>
        \<in> set (leads (handleConvertToOpportunity halfDraw exampleLead exampleState))
   \<and> leads (handleConvertToOpportunity halfDraw exampleLead exampleState) ! 0
        = exampleLead\<lparr>status := Qualified\<rparr>
   \<and> ready (handleConvertToOpportunity halfDraw exampleLead exampleState)"
proof -
  have r: "ready exampleState"
    by (simp add: ready_def exampleState_def)
  have m: "exampleLead \<in> set (leads exampleState)"
    by (simp add: exampleState_def)
  have n: "0 < length (leads exampleState)"
    by (simp add: exampleState_def)
  have z: "lead_id (leads exampleState ! 0) = lead_id exampleLead"
    by (simp add: exampleState_def)
  note t = convert_appends_and_qualifies [of halfDraw exampleLead exampleState]
  from t have o: "opportunities (handleConvertToOpportunity halfDraw exampleLead exampleState)
      = opportunities exampleState @ [newOpportunity halfDraw exampleLead exampleState]"
    by blast
  from t m have q: "exampleLead\<lparr>status := Qualified\<rparr>
        \<in> set (leads (handleConvertToOpportunity halfDraw exampleLead exampleState))"
    by blast
  from t n z have i: "leads (handleConvertToOpportunity halfDraw exampleLead exampleState) ! 0
        = exampleLead\<lparr>status := Qualified\<rparr>"
    by simp
  from t r have r': "ready (handleConvertToOpportunity halfDraw exampleLead exampleState)"
    by blast
  from o have l:
    "length (opportunities (handleConvertToOpportunity halfDraw exampleLead exampleState)) = 1"
    by (simp add: exampleState_def)
  show ?thesis using r m l q i r' by simp
qed

text \<open>
  Claim C2, as the specification states it, fails: with one lead selected, updating a
  different lead moves the selection to the updated record, and with the panel closed
  (no lead selected) an update selects the updated record.
\<close>

theorem update_selection_counterexample:
  "selectedLead exampleState = Some exampleLead
   \<and> lead_id otherLead \<noteq> lead_id exampleLead
   \<and> selectedLead (handleLeadUpdate otherLead exampleState) \<noteq> selectedLead exampleState
   \<and> selectedLead (handleClosePanel exampleState) = None
   \<and> selectedLead (handleLeadUpdate otherLead (handleClosePanel exampleState))
       \<noteq> selectedLead (handleClosePanel exampleState)"
  by (simp add: handleLeadUpdate_def handleClosePanel_def setters exampleState_def
      exampleLead_def otherLead_def)

text \<open>
  Claim C2, amended. For every replacement record \<open>R\<close> and every state, Update lead
  makes \<open>R\<close> the active selection, whichever lead was selected before and also when
  none was.
\<close>

theorem update_always_selects_replacement:
  "selectedLead (handleLeadUpdate R s) = Some R"
  by (simp add: handleLeadUpdate_def setters)

text \<open>
  Claim C6, as the specification states it, fails: an update with an id that no lead
  of the collection has is not a no-op. It leaves the collection as it is, and it
  makes the record the active selection, so the state after it differs from the state
  before and the detail panel shows a record that is not in the collection.
\<close>

theorem update_unknown_id_counterexample:
  "leads exampleState = [exampleLead, otherLead]
   \<and> lead_id exampleLead \<noteq> lead_id strangerLead
   \<and> lead_id otherLead \<noteq> lead_id strangerLead
   \<and> selectedLead exampleState = Some exampleLead
   \<and> selectedLead (handleLeadUpdate strangerLead exampleState) = Some strangerLead
   \<and> handleLeadUpdate strangerLead exampleState \<noteq> exampleState"
proof -
  have sel: "selectedLead exampleState = Some exampleLead"
    by (simp add: exampleState_def)
  have new: "selectedLead (handleLeadUpdate strangerLead exampleState) = Some strangerLead"
    by (simp add: handleLeadUpdate_def setters)
  have "strangerLead \<noteq> exampleLead"
    by (simp add: strangerLead_def exampleLead_def)
  with sel new have "handleLeadUpdate strangerLead exampleState \<noteq> exampleState"
    by auto
  with sel new show ?thesis
    by (simp add: exampleState_def exampleLead_def otherLead_def strangerLead_def)
qed

text \<open>
  Claim C6, amended. When no lead of the collection has the id of the replacement
  record \<open>R\<close>, Update lead leaves the collection as it is and raises no error: the
  handler has no failing branch, and it touches neither the opportunities nor the error
  state. It is not a no-op on the state, because \<open>R\<close> becomes the active selection, as
  after every update. In every case the collection keeps its length and order, and
  exactly the records with \<open>R\<close>'s id are replaced by \<open>R\<close>, each in its place.
\<close>

theorem update_unknown_id_keeps_collection:
  "((\<forall>l \<in> set (leads s). lead_id l \<noteq> lead_id R) \<longrightarrow> leads (handleLeadUpdate R s) = leads s)
   \<and> length (leads (handleLeadUpdate R s)) = length (leads s)
   \<and> (\<forall>i < length (leads s).
        leads (handleLeadUpdate R s) ! i =
          (if lead_id (leads s ! i) = lead_id R then R else leads s ! i))
   \<and> opportunities (handleLeadUpdate R s) = opportunities s
   \<and> error (handleLeadUpdate R s) = error s
   \<and> isLoading (handleLeadUpdate R s) = isLoading s
   \<and> activeTab (handleLeadUpdate R s) = activeTab s
   \<and> selectedLead (handleLeadUpdate R s) = Some R
   \<and> (selectedLead s \<noteq> Some R \<longrightarrow> handleLeadUpdate R s \<noteq> s)"
proof -
  have kept: "(\<forall>l \<in> set (leads s). lead_id l \<noteq> lead_id R) \<longrightarrow>
      leads (handleLeadUpdate R s) = leads s"
    by (simp add: leads_handleLeadUpdate map_replace_absent)
  have rest: "error (handleLeadUpdate R s) = error s"
    "isLoading (handleLeadUpdate R s) = isLoading s"
    "activeTab (handleLeadUpdate R s) = activeTab s"
    by (simp_all add: handleLeadUpdate_def setters)
  have sel: "selectedLead (handleLeadUpdate R s) = Some R"
    by (simp add: handleLeadUpdate_def setters)
  then have moved: "selectedLead s \<noteq> Some R \<longrightarrow> handleLeadUpdate R s \<noteq> s"
    by auto
  from kept rest sel moved show ?thesis
    by (simp add: leads_handleLeadUpdate opportunities_handleLeadUpdate)
qed

theorem update_unknown_id_keeps_collection_witness:
  "leads exampleState = [exampleLead, otherLead]
   \<and> lead_id exampleLead \<noteq> lead_id strangerLead
   \<and> lead_id otherLead \<noteq> lead_id strangerLead
   \<and> leads (handleLeadUpdate strangerLead exampleState) = leads exampleState
   \<and> selectedLead (handleLeadUpdate strangerLead exampleState) = Some strangerLead
   \<and> selectedLead exampleState \<noteq> Some strangerLead
   \<and> handleLeadUpdate strangerLead exampleState \<noteq> exampleState
   \<and> (1::nat) < length (leads exampleState)
   \<and> leads (handleLeadUpdate (otherLead\<lparr>status := Qualified\<rparr>) exampleState) ! 1
        = otherLead\<lparr>status := Qualified\<rparr>"
proof -
  have e: "leads exampleState = [exampleLead, otherLead]"
    by (simp add: exampleState_def)
  have d: "lead_id exampleLead \<noteq> lead_id strangerLead"
    "lead_id otherLead \<noteq> lead_id strangerLead"
    by (simp_all add: exampleLead_def otherLead_def strangerLead_def)
  from e d have a: "\<forall>l \<in> set (leads exampleState). lead_id l \<noteq> lead_id strangerLead"
    by simp
  have n: "(1::nat) < length (leads exampleState)"
    by (simp add: e)
  have z: "lead_id (leads exampleState ! 1) = lead_id (otherLead\<lparr>status := Qualified\<rparr>)"
    by (simp add: e)
  have o: "selectedLead exampleState \<noteq> Some strangerLead"
    by (simp add: exampleState_def exampleLead_def strangerLead_def)
  note t = update_unknown_id_keeps_collection [of exampleState strangerLead]
  from a t have b: "leads (handleLeadUpdate strangerLead exampleState) = leads exampleState"
    by blast
  from t have s: "selectedLead (handleLeadUpdate strangerLead exampleState) = Some strangerLead"
    by blast
  from o t have m: "handleLeadUpdate strangerLead exampleState \<noteq> exampleState"
    by blast
  from n z update_unknown_id_keeps_collection [of exampleState "otherLead\<lparr>status := Qualified\<rparr>"]
  have c: "leads (handleLeadUpdate (otherLead\<lparr>status := Qualified\<rparr>) exampleState) ! 1
        = otherLead\<lparr>status := Qualified\<rparr>"
    by simp
  from e d b s o m n c show ?thesis by blast
qed

section \<open>Properties of the preferences and the page index\<close>

lemma storage_after_saveFilters:
  "saveFilters s f k d p st ''leads-search'' = Some s"
  "saveFilters s f k d p st ''leads-status-filter'' = Some (StatusFilter_string f)"
  "saveFilters s f k d p st ''leads-sort-by'' = Some (SortBy_string k)"
  "saveFilters s f k d p st ''leads-sort-order'' = Some (SortOrder_string d)"
  by (simp_all add: saveFilters_def Let_def split: option.splits)

lemma page_size_after_saveFilters:
  "n \<noteq> 0 \<Longrightarrow> saveFilters s f k d (Some n) st ''leads-page-size'' = Some (toString n)"
  by (simp add: saveFilters_def Let_def)

lemma page_size_kept_by_saveFilters:
  "saveFilters s f k d None st ''leads-page-size'' = st ''leads-page-size''"
  by (simp add: saveFilters_def Let_def)

lemma asStatusFilter_string:
  "asStatusFilter (StatusFilter_string f) = Some f"
  "StatusFilter_string f \<noteq> []"
  "StatusFilter_string f \<in> set [''New'', ''Contacted'', ''Qualified'', ''All'']"
proof -
  show "asStatusFilter (StatusFilter_string f) = Some f"
  proof (cases f)
    case All
    then show ?thesis by (simp add: asStatusFilter_def)
  next
    case (Status st)
    then show ?thesis by (cases st) (simp_all add: asStatusFilter_def)
  qed
  show "StatusFilter_string f \<noteq> []"
  proof (cases f)
    case All
    then show ?thesis by simp
  next
    case (Status st)
    then show ?thesis by (cases st) simp_all
  qed
  show "StatusFilter_string f \<in> set [''New'', ''Contacted'', ''Qualified'', ''All'']"
  proof (cases f)
    case All
    then show ?thesis by simp
  next
    case (Status st)
    then show ?thesis by (cases st) simp_all
  qed
qed

lemma asSortBy_string:
  "asSortBy (SortBy_string k) = Some k"
  "SortBy_string k \<noteq> []"
  "SortBy_string k \<in> set [''score'', ''name'', ''company'']"
  by (cases k; simp add: asSortBy_def)+

lemma asSortOrder_string:
  "asSortOrder (SortOrder_string d) = Some d"
  "SortOrder_string d \<noteq> []"
  "SortOrder_string d \<in> set [''asc'', ''desc'']"
  by (cases d; simp add: asSortOrder_def)+

lemma toString_page_sizes:
  "toString 5 = ''5''" "toString 10 = ''10''" "toString 20 = ''20''" "toString 50 = ''50''"
  by code_simp+

lemma parseInt_page_sizes:
  "parseInt ''5'' = Some 5" "parseInt ''10'' = Some 10"
  "parseInt ''20'' = Some 20" "parseInt ''50'' = Some 50"
  by code_simp+

lemma loadSearch_other:
  "statusFilter (loadSearch st v) = statusFilter v"
  "sortBy (loadSearch st v) = sortBy v"
  "sortOrder (loadSearch st v) = sortOrder v"
  "pageSize (loadSearch st v) = pageSize v"
  "currentPage (loadSearch st v) = currentPage v"
  by (simp_all add: loadSearch_def split: option.splits)

lemma loadStatus_other:
  "searchTerm (loadStatus st v) = searchTerm v"
  "sortBy (loadStatus st v) = sortBy v"
  "sortOrder (loadStatus st v) = sortOrder v"
  "pageSize (loadStatus st v) = pageSize v"
  "currentPage (loadStatus st v) = currentPage v"
  unfolding loadStatus_def by (simp_all split: option.splits del: set_simps)

lemma loadSortBy_other:
  "searchTerm (loadSortBy st v) = searchTerm v"
  "statusFilter (loadSortBy st v) = statusFilter v"
  "sortOrder (loadSortBy st v) = sortOrder v"
  "pageSize (loadSortBy st v) = pageSize v"
  "currentPage (loadSortBy st v) = currentPage v"
  unfolding loadSortBy_def by (simp_all split: option.splits del: set_simps)

lemma loadSortOrder_other:
  "searchTerm (loadSortOrder st v) = searchTerm v"
  "statusFilter (loadSortOrder st v) = statusFilter v"
  "sortBy (loadSortOrder st v) = sortBy v"
  "pageSize (loadSortOrder st v) = pageSize v"
  "currentPage (loadSortOrder st v) = currentPage v"
  unfolding loadSortOrder_def by (simp_all split: option.splits del: set_simps)

lemma loadPageSize_other:
  "searchTerm (loadPageSize st v) = searchTerm v"
  "statusFilter (loadPageSize st v) = statusFilter v"
  "sortBy (loadPageSize st v) = sortBy v"
  "sortOrder (loadPageSize st v) = sortOrder v"
  "currentPage (loadPageSize st v) = currentPage v"
  unfolding loadPageSize_def by (simp_all split: option.splits del: set_simps)

lemmas load_other =
  loadSearch_other loadStatus_other loadSortBy_other loadSortOrder_other loadPageSize_other

lemma mount_searchTerm:
  "searchTerm (mountLeadsList st) = searchTerm (loadSearch st initialView)"
  by (simp add: mountLeadsList_def loadSavedFilters_def load_other)

lemma mount_statusFilter:
  "statusFilter (mountLeadsList st) = statusFilter (loadStatus st initialView)"
proof -
  have "statusFilter (loadStatus st (loadSearch st initialView)) =
        statusFilter (loadStatus st initialView)"
    unfolding loadStatus_def
    by (simp add: loadSearch_other split: option.splits del: set_simps)
  then show ?thesis
    by (simp add: mountLeadsList_def loadSavedFilters_def load_other)
qed

lemma mount_sortBy:
  "sortBy (mountLeadsList st) = sortBy (loadSortBy st initialView)"
proof -
  have "sortBy (loadSortBy st (loadStatus st (loadSearch st initialView))) =
        sortBy (loadSortBy st initialView)"
    unfolding loadSortBy_def
    by (simp add: loadSearch_other loadStatus_other split: option.splits del: set_simps)
  then show ?thesis
    by (simp add: mountLeadsList_def loadSavedFilters_def load_other)
qed

lemma mount_sortOrder:
  "sortOrder (mountLeadsList st) = sortOrder (loadSortOrder st initialView)"
proof -
  have "sortOrder (loadSortOrder st (loadSortBy st (loadStatus st (loadSearch st initialView)))) =
        sortOrder (loadSortOrder st initialView)"
    unfolding loadSortOrder_def
    by (simp add: loadSearch_other loadStatus_other loadSortBy_other
        split: option.splits del: set_simps)
  then show ?thesis
    by (simp add: mountLeadsList_def loadSavedFilters_def load_other)
qed

lemma mount_pageSize:
  "pageSize (mountLeadsList st) = pageSize (loadPageSize st initialView)"
proof -
  have "pageSize (loadPageSize st (loadSortOrder st (loadSortBy st (loadStatus st
          (loadSearch st initialView))))) = pageSize (loadPageSize st initialView)"
    unfolding loadPageSize_def
    by (simp add: load_other split: option.splits del: set_simps)
  then show ?thesis
    by (simp add: mountLeadsList_def loadSavedFilters_def)
qed

lemma mount_currentPage: "currentPage (mountLeadsList st) = 1"
  by (simp add: mountLeadsList_def loadSavedFilters_def load_other initialView_def)

lemma mount_after_saveFilters:
  "searchTerm (mountLeadsList (saveFilters s f k d p st)) = s"
  "statusFilter (mountLeadsList (saveFilters s f k d p st)) = f"
  "sortBy (mountLeadsList (saveFilters s f k d p st)) = k"
  "sortOrder (mountLeadsList (saveFilters s f k d p st)) = d"
proof -
  show "searchTerm (mountLeadsList (saveFilters s f k d p st)) = s"
    by (simp add: mount_searchTerm loadSearch_def storage_after_saveFilters initialView_def)
  show "statusFilter (mountLeadsList (saveFilters s f k d p st)) = f"
    unfolding mount_statusFilter loadStatus_def
    by (simp add: storage_after_saveFilters asStatusFilter_string del: set_simps)
  show "sortBy (mountLeadsList (saveFilters s f k d p st)) = k"
    unfolding mount_sortBy loadSortBy_def
    by (simp add: storage_after_saveFilters asSortBy_string del: set_simps)
  show "sortOrder (mountLeadsList (saveFilters s f k d p st)) = d"
    unfolding mount_sortOrder loadSortOrder_def
    by (simp add: storage_after_saveFilters asSortOrder_string del: set_simps)
qed

lemma mount_pageSize_after_saveFilters:
  assumes "p \<in> {5, 10, 20, 50}"
  shows "pageSize (mountLeadsList (saveFilters s f k d (Some p) st)) = p"
proof -
  from assms have "p \<noteq> 0" by auto
  then have stored: "saveFilters s f k d (Some p) st ''leads-page-size'' = Some (toString p)"
    by (rule page_size_after_saveFilters)
  from assms consider "p = 5" | "p = 10" | "p = 20" | "p = 50" by auto
  then show ?thesis
  proof cases
    case 1
    with stored show ?thesis
      unfolding mount_pageSize loadPageSize_def
      by (simp add: toString_page_sizes parseInt_page_sizes)
  next
    case 2
    with stored show ?thesis
      unfolding mount_pageSize loadPageSize_def
      by (simp add: toString_page_sizes parseInt_page_sizes)
  next
    case 3
    with stored show ?thesis
      unfolding mount_pageSize loadPageSize_def
      by (simp add: toString_page_sizes parseInt_page_sizes)
  next
    case 4
    with stored show ?thesis
      unfolding mount_pageSize loadPageSize_def
      by (simp add: toString_page_sizes parseInt_page_sizes)
  qed
qed

lemma mount_defaults:
  "st ''leads-search'' = None \<or> st ''leads-search'' = Some [] \<Longrightarrow>
     searchTerm (mountLeadsList st) = []"
  "st ''leads-status-filter'' = None
     \<or> (\<exists>y. st ''leads-status-filter'' = Some y
           \<and> y \<notin> set [''New'', ''Contacted'', ''Qualified'', ''All'']) \<Longrightarrow>
     statusFilter (mountLeadsList st) = All"
  "st ''leads-sort-by'' = None
     \<or> (\<exists>y. st ''leads-sort-by'' = Some y \<and> y \<notin> set [''score'', ''name'', ''company'']) \<Longrightarrow>
     sortBy (mountLeadsList st) = ByScore"
  "st ''leads-sort-order'' = None
     \<or> (\<exists>y. st ''leads-sort-order'' = Some y \<and> y \<notin> set [''asc'', ''desc'']) \<Longrightarrow>
     sortOrder (mountLeadsList st) = Desc"
  "st ''leads-page-size'' = None
     \<or> (\<exists>y. st ''leads-page-size'' = Some y \<and> y \<notin> set [''5'', ''10'', ''20'', ''50'']) \<Longrightarrow>
     pageSize (mountLeadsList st) = 10"
proof -
  show "st ''leads-search'' = None \<or> st ''leads-search'' = Some [] \<Longrightarrow>
     searchTerm (mountLeadsList st) = []"
    by (auto simp: mount_searchTerm loadSearch_def initialView_def)
  show "st ''leads-status-filter'' = None
     \<or> (\<exists>y. st ''leads-status-filter'' = Some y
           \<and> y \<notin> set [''New'', ''Contacted'', ''Qualified'', ''All'']) \<Longrightarrow>
     statusFilter (mountLeadsList st) = All"
    unfolding mount_statusFilter loadStatus_def
    by (auto simp: initialView_def simp del: set_simps)
  show "st ''leads-sort-by'' = None
     \<or> (\<exists>y. st ''leads-sort-by'' = Some y \<and> y \<notin> set [''score'', ''name'', ''company'']) \<Longrightarrow>
     sortBy (mountLeadsList st) = ByScore"
    unfolding mount_sortBy loadSortBy_def
    by (auto simp: initialView_def simp del: set_simps)
  show "st ''leads-sort-order'' = None
     \<or> (\<exists>y. st ''leads-sort-order'' = Some y \<and> y \<notin> set [''asc'', ''desc'']) \<Longrightarrow>
     sortOrder (mountLeadsList st) = Desc"
    unfolding mount_sortOrder loadSortOrder_def
    by (auto simp: initialView_def simp del: set_simps)
  show "st ''leads-page-size'' = None
     \<or> (\<exists>y. st ''leads-page-size'' = Some y \<and> y \<notin> set [''5'', ''10'', ''20'', ''50'']) \<Longrightarrow>
     pageSize (mountLeadsList st) = 10"
    unfolding mount_pageSize loadPageSize_def
    by (auto simp: initialView_def simp del: set_simps)
qed

text \<open>
  Claim C7. Writing a preference through its change handler and mounting the view again
  from the storage the handler left gives that value back: any search text, any status
  filter, the sort key and the direction that the sort handler chose, and a page size of
  5, 10, 20 or 50. A stored string outside a preference's list of valid values is
  ignored, so the view mounts with the default: \<open>All\<close>, \<open>score\<close>, \<open>desc\<close>, 10, and the
  empty search text when the stored one is empty.
\<close>

theorem preferences_round_trip:
  "searchTerm (fst (handleSearchChange x (v, st))) = x
   \<and> searchTerm (mountLeadsList (snd (handleSearchChange x (v, st)))) = x
   \<and> statusFilter (fst (handleStatusFilterChange f (v, st))) = f
   \<and> statusFilter (mountLeadsList (snd (handleStatusFilterChange f (v, st)))) = f
   \<and> sortBy (fst (handleSortChange k (v, st))) = k
   \<and> sortBy (mountLeadsList (snd (handleSortChange k (v, st)))) = k
   \<and> sortOrder (mountLeadsList (snd (handleSortChange k (v, st))))
       = sortOrder (fst (handleSortChange k (v, st)))
   \<and> (p \<in> {5, 10, 20, 50} \<longrightarrow>
        pageSize (fst (handlePageSizeChange p (v, st))) = p
        \<and> pageSize (mountLeadsList (snd (handlePageSizeChange p (v, st)))) = p)
   \<and> (st ''leads-search'' = Some [] \<longrightarrow> searchTerm (mountLeadsList st) = [])
   \<and> (st ''leads-status-filter'' = Some y1
        \<and> y1 \<notin> set [''New'', ''Contacted'', ''Qualified'', ''All''] \<longrightarrow>
        statusFilter (mountLeadsList st) = All)
   \<and> (st ''leads-sort-by'' = Some y2 \<and> y2 \<notin> set [''score'', ''name'', ''company''] \<longrightarrow>
        sortBy (mountLeadsList st) = ByScore)
   \<and> (st ''leads-sort-order'' = Some y3 \<and> y3 \<notin> set [''asc'', ''desc''] \<longrightarrow>
        sortOrder (mountLeadsList st) = Desc)
   \<and> (st ''leads-page-size'' = Some y4 \<and> y4 \<notin> set [''5'', ''10'', ''20'', ''50''] \<longrightarrow>
        pageSize (mountLeadsList st) = 10)"
proof -
  have search: "searchTerm (fst (handleSearchChange x (v, st))) = x
      \<and> searchTerm (mountLeadsList (snd (handleSearchChange x (v, st)))) = x"
    by (simp add: handleSearchChange_def mount_after_saveFilters)
  have status: "statusFilter (fst (handleStatusFilterChange f (v, st))) = f
      \<and> statusFilter (mountLeadsList (snd (handleStatusFilterChange f (v, st)))) = f"
    by (simp add: handleStatusFilterChange_def mount_after_saveFilters)
  have sort: "sortBy (fst (handleSortChange k (v, st))) = k
      \<and> sortBy (mountLeadsList (snd (handleSortChange k (v, st)))) = k
      \<and> sortOrder (mountLeadsList (snd (handleSortChange k (v, st))))
          = sortOrder (fst (handleSortChange k (v, st)))"
    by (simp add: handleSortChange_def Let_def mount_after_saveFilters)
  have size: "p \<in> {5, 10, 20, 50} \<longrightarrow>
        pageSize (fst (handlePageSizeChange p (v, st))) = p
        \<and> pageSize (mountLeadsList (snd (handlePageSizeChange p (v, st)))) = p"
    using mount_pageSize_after_saveFilters [of p]
    by (simp add: handlePageSizeChange_def del: insert_iff)
  have d1: "st ''leads-search'' = Some [] \<longrightarrow> searchTerm (mountLeadsList st) = []"
    using mount_defaults(1) [of st] by blast
  have d2: "st ''leads-status-filter'' = Some y1
        \<and> y1 \<notin> set [''New'', ''Contacted'', ''Qualified'', ''All''] \<longrightarrow>
        statusFilter (mountLeadsList st) = All"
    using mount_defaults(2) [of st] by blast
  have d3: "st ''leads-sort-by'' = Some y2 \<and> y2 \<notin> set [''score'', ''name'', ''company''] \<longrightarrow>
        sortBy (mountLeadsList st) = ByScore"
    using mount_defaults(3) [of st] by blast
  have d4: "st ''leads-sort-order'' = Some y3 \<and> y3 \<notin> set [''asc'', ''desc''] \<longrightarrow>
        sortOrder (mountLeadsList st) = Desc"
    using mount_defaults(4) [of st] by blast
  have d5: "st ''leads-page-size'' = Some y4 \<and> y4 \<notin> set [''5'', ''10'', ''20'', ''50''] \<longrightarrow>
        pageSize (mountLeadsList st) = 10"
    using mount_defaults(5) [of st] by blast
  from search status sort size d1 d2 d3 d4 d5 show ?thesis by blast
qed

theorem preferences_round_trip_witness:
  "(20::int) \<in> {5, 10, 20, 50}
   \<and> pageSize (mountLeadsList (snd (handlePageSizeChange 20 (initialView, staleStorage)))) = 20
   \<and> searchTerm (mountLeadsList (snd (handleSearchChange ''acme'' (initialView, staleStorage))))
       = ''acme''
   \<and> staleStorage ''leads-search'' = Some []
   \<and> staleStorage ''leads-status-filter'' = Some ''Archived''
   \<and> staleStorage ''leads-sort-by'' = Some ''email''
   \<and> staleStorage ''leads-sort-order'' = Some ''up''
   \<and> staleStorage ''leads-page-size'' = Some ''7''
   \<and> searchTerm (mountLeadsList staleStorage) = []
   \<and> statusFilter (mountLeadsList staleStorage) = All
   \<and> sortBy (mountLeadsList staleStorage) = ByScore
   \<and> sortOrder (mountLeadsList staleStorage) = Desc
   \<and> pageSize (mountLeadsList staleStorage) = 10"
proof -
  have p: "(20::int) \<in> {5, 10, 20, 50}" by simp
  have s0: "staleStorage ''leads-search'' = Some []"
    and s1: "staleStorage ''leads-status-filter'' = Some ''Archived''"
    and s2: "staleStorage ''leads-sort-by'' = Some ''email''"
    and s3: "staleStorage ''leads-sort-order'' = Some ''up''"
    and s4: "staleStorage ''leads-page-size'' = Some ''7''"
    by (simp_all add: staleStorage_def)
  have n1: "''Archived'' \<notin> set [''New'', ''Contacted'', ''Qualified'', ''All'']"
    and n2: "''email'' \<notin> set [''score'', ''name'', ''company'']"
    and n3: "''up'' \<notin> set [''asc'', ''desc'']"
    and n4: "''7'' \<notin> set [''5'', ''10'', ''20'', ''50'']"
    by simp_all
  note t = preferences_round_trip [of "''acme''" initialView staleStorage _ _ 20
      "''Archived''" "''email''" "''up''" "''7''"]
  from t p have a: "pageSize (mountLeadsList (snd (handlePageSizeChange 20 (initialView, staleStorage)))) = 20"
    by blast
  from t have b: "searchTerm (mountLeadsList (snd (handleSearchChange ''acme'' (initialView, staleStorage))))
       = ''acme''"
    by blast
  from t s0 have c0: "searchTerm (mountLeadsList staleStorage) = []" by blast
  from t s1 n1 have c1: "statusFilter (mountLeadsList staleStorage) = All" by blast
  from t s2 n2 have c2: "sortBy (mountLeadsList staleStorage) = ByScore" by blast
  from t s3 n3 have c3: "sortOrder (mountLeadsList staleStorage) = Desc" by blast
  from t s4 n4 have c4: "pageSize (mountLeadsList staleStorage) = 10" by blast
  from p a b s0 s1 s2 s3 s4 c0 c1 c2 c3 c4 show ?thesis by blast
qed

text \<open>
  Claim C10. Changing the page size, to any value, sets the page index to 1 in the same
  step, and the effect that follows the render leaves it there. The effect sets the
  page index to 1 after the search text or the status filter has changed, and after
  every sort change, which always changes the key or the direction.
\<close>

theorem page_size_change_resets_page:
  "currentPage (fst (handlePageSizeChange p (v, st))) = 1
   \<and> pageSize (fst (handlePageSizeChange p (v, st))) = p
   \<and> currentPage (resetPageEffect v (fst (handlePageSizeChange p (v, st)))) = 1
   \<and> (x \<noteq> searchTerm v \<longrightarrow>
        currentPage (resetPageEffect v (fst (handleSearchChange x (v, st)))) = 1)
   \<and> (f \<noteq> statusFilter v \<longrightarrow>
        currentPage (resetPageEffect v (fst (handleStatusFilterChange f (v, st)))) = 1)
   \<and> currentPage (resetPageEffect v (fst (handleSortChange k (v, st)))) = 1"
proof -
  have size: "currentPage (fst (handlePageSizeChange p (v, st))) = 1
      \<and> pageSize (fst (handlePageSizeChange p (v, st))) = p
      \<and> currentPage (resetPageEffect v (fst (handlePageSizeChange p (v, st)))) = 1"
    by (simp add: handlePageSizeChange_def resetPageEffect_def)
  have search: "x \<noteq> searchTerm v \<longrightarrow>
        currentPage (resetPageEffect v (fst (handleSearchChange x (v, st)))) = 1"
    by (auto simp: handleSearchChange_def resetPageEffect_def)
  have status: "f \<noteq> statusFilter v \<longrightarrow>
        currentPage (resetPageEffect v (fst (handleStatusFilterChange f (v, st)))) = 1"
    by (auto simp: handleStatusFilterChange_def resetPageEffect_def)
  have sort: "currentPage (resetPageEffect v (fst (handleSortChange k (v, st)))) = 1"
  proof (cases "sortBy v = k")
    case True
    then show ?thesis
      by (cases "sortOrder v") (simp_all add: handleSortChange_def resetPageEffect_def)
  next
    case False
    then show ?thesis
      by (simp add: handleSortChange_def resetPageEffect_def Let_def)
  qed
  from size search status sort show ?thesis by blast
qed

theorem page_size_change_resets_page_witness:
  "currentPage thirdPageView = 3
   \<and> currentPage (fst (handlePageSizeChange 5 (thirdPageView, staleStorage))) = 1
   \<and> ''acme'' \<noteq> searchTerm thirdPageView
   \<and> currentPage (resetPageEffect thirdPageView
        (fst (handleSearchChange ''acme'' (thirdPageView, staleStorage)))) = 1
   \<and> Status New \<noteq> statusFilter thirdPageView
   \<and> currentPage (resetPageEffect thirdPageView
        (fst (handleStatusFilterChange (Status New) (thirdPageView, staleStorage)))) = 1"
proof -
  have c: "currentPage thirdPageView = 3"
    and a: "''acme'' \<noteq> searchTerm thirdPageView"
    and b: "Status New \<noteq> statusFilter thirdPageView"
    by (simp_all add: thirdPageView_def)
  note t = page_size_change_resets_page
    [of 5 thirdPageView staleStorage "''acme''" "Status New"]
  from t have r1: "currentPage (fst (handlePageSizeChange 5 (thirdPageView, staleStorage))) = 1"
    by blast
  from t a have r2: "currentPage (resetPageEffect thirdPageView
        (fst (handleSearchChange ''acme'' (thirdPageView, staleStorage)))) = 1"
    by blast
  from t b have r3: "currentPage (resetPageEffect thirdPageView
        (fst (handleStatusFilterChange (Status New) (thirdPageView, staleStorage)))) = 1"
    by blast
  from c a b r1 r2 r3 show ?thesis by blast
qed

section \<open>Properties of the pagination\<close>

lemma slice_nonneg:
  assumes "0 \<le> start" "start \<le> end'"
  shows "slice xs start end' = take (nat (end' - start)) (drop (nat start) xs)"
proof (cases "start \<le> int (length xs)")
  case True
  with assms show ?thesis
    by (auto simp: slice_def Let_def min_def intro!: take_all)
next
  case False
  with assms show ?thesis
    by (simp add: slice_def Let_def min_def)
qed

lemma paginatedLeads_nth_page:
  assumes "0 < p"
  shows "paginatedLeads xs (int i + 1) p = take (nat p) (drop (i * nat p) xs)"
proof -
  have "nat (int i * p) = i * nat p"
    using assms by (simp add: nat_mult_distrib)
  moreover have "0 \<le> int i * p"
    using assms by simp
  ultimately show ?thesis
    using assms by (simp add: paginatedLeads_def Let_def slice_nonneg)
qed

lemma concat_pages_take:
  "concat (map (\<lambda>i. take n (drop (i * n) xs)) [0..<m]) = take (m * n) xs"
proof (induction m)
  case 0
  then show ?case by simp
next
  case (Suc m)
  have "take (m * n) xs @ take n (drop (m * n) xs) = take (m * n + n) xs"
    by (simp add: take_add)
  with Suc show ?case by (simp add: add.commute)
qed

lemma page_numbers: "[1..int m] = map (\<lambda>i. int i + 1) [0..<m]"
proof (induction m)
  case 0
  then show ?case by simp
next
  case (Suc m)
  have "[1..int (Suc m)] = [1..int m] @ [int m + 1]"
    using upto_rec2 [of 1 "int m + 1"] by (simp add: add.commute)
  with Suc show ?case by simp
qed

lemma totalPages_covers:
  assumes "0 < p" "totalPages xs p = Some n"
  shows "0 \<le> n" "length xs \<le> nat n * nat p"
proof -
  from assms have n: "n = \<lceil>rat_of_nat (length xs) / rat_of_int p\<rceil>"
    by (simp add: totalPages_def)
  have q: "0 \<le> rat_of_nat (length xs) / rat_of_int p"
    using assms(1) by simp
  then show "0 \<le> n"
    unfolding n by (simp add: ceiling_le_iff order.trans [OF _ le_of_int_ceiling])
  have "rat_of_nat (length xs) / rat_of_int p \<le> rat_of_int n"
    unfolding n by (rule le_of_int_ceiling)
  then have "rat_of_nat (length xs) \<le> rat_of_int n * rat_of_int p"
    using assms(1) by (simp add: pos_divide_le_eq)
  then have "rat_of_int (int (length xs)) \<le> rat_of_int (n * p)"
    by simp
  then have "int (length xs) \<le> n * p"
    by (simp only: of_int_le_iff)
  with \<open>0 \<le> n\<close> assms(1) show "length xs \<le> nat n * nat p"
    by (metis nat_int nat_mono nat_mult_distrib)
qed

text \<open>
  Claim C4. For every sequence and every page size \<open>p > 0\<close> (so for 5, 10, 20 and 50),
  the number of pages is an integer, and the page slices
  \<open>[(page - 1) * p, page * p)\<close> for the pages 1 up to that number, put one after the
  other, are the sequence itself: nothing is left out and nothing comes twice.
\<close>

theorem pages_reconstruct_sequence:
  assumes "0 < p"
  shows "\<exists>n. totalPages xs p = Some n
           \<and> concat (map (\<lambda>page. paginatedLeads xs page p) [1..n]) = xs"
proof -
  define n where "n = \<lceil>rat_of_nat (length xs) / rat_of_int p\<rceil>"
  with assms have total: "totalPages xs p = Some n"
    by (simp add: totalPages_def)
  from totalPages_covers [OF assms total]
  have n0: "0 \<le> n" and cover: "length xs \<le> nat n * nat p"
    by simp_all
  have "[1..n] = map (\<lambda>i. int i + 1) [0..<nat n]"
    using page_numbers [of "nat n"] n0 by simp
  then have "concat (map (\<lambda>page. paginatedLeads xs page p) [1..n])
      = concat (map (\<lambda>i. paginatedLeads xs (int i + 1) p) [0..<nat n])"
    by (simp add: comp_def)
  also have "\<dots> = concat (map (\<lambda>i. take (nat p) (drop (i * nat p) xs)) [0..<nat n])"
    by (simp add: paginatedLeads_nth_page [OF assms])
  also have "\<dots> = take (nat n * nat p) xs"
    by (rule concat_pages_take)
  also have "\<dots> = xs"
    using cover by simp
  finally show ?thesis
    using total by blast
qed

theorem pages_reconstruct_sequence_witness:
  "(0::int) < 10
   \<and> totalPages twelveItems 10 = Some 2
   \<and> paginatedLeads twelveItems 1 10 = [1, 2, 3, 4, 5, 6, 7, 8, 9, 10]
   \<and> paginatedLeads twelveItems 2 10 = [11, 12]
   \<and> concat (map (\<lambda>page. paginatedLeads twelveItems page 10) [1..2]) = twelveItems"
proof -
  have p: "(0::int) < 10" by simp
  have "\<lceil>rat_of_nat 12 / rat_of_int 10\<rceil> = 2"
    by (rule ceiling_unique) simp_all
  then have t: "totalPages twelveItems 10 = Some 2"
    by (simp add: totalPages_def twelveItems_def)
  have p1: "paginatedLeads twelveItems 1 10 = [1, 2, 3, 4, 5, 6, 7, 8, 9, 10]"
    by (simp add: paginatedLeads_def slice_def twelveItems_def)
  have p2: "paginatedLeads twelveItems 2 10 = [11, 12]"
    by (simp add: paginatedLeads_def slice_def twelveItems_def)
  from pages_reconstruct_sequence [OF p, of twelveItems] t
  have "concat (map (\<lambda>page. paginatedLeads twelveItems page 10) [1..2]) = twelveItems"
    by simp
  with p t p1 p2 show ?thesis by blast
qed

section \<open>Properties of the filter and the sort\<close>

lemma includes_str_iff:
  "includes_str hay needle \<longleftrightarrow> (\<exists>pre post. hay = pre @ needle @ post)"
proof
  assume "includes_str hay needle"
  then obtain k where k: "take (length needle) (drop k hay) = needle"
    by (auto simp: includes_str_def list_ex_iff)
  have "drop k hay = take (length needle) (drop k hay) @ drop (length needle) (drop k hay)"
    by (simp only: append_take_drop_id)
  with k have "drop k hay = needle @ drop (length needle) (drop k hay)"
    by simp
  moreover have "hay = take k hay @ drop k hay"
    by (simp only: append_take_drop_id)
  ultimately have "hay = take k hay @ needle @ drop (length needle) (drop k hay)"
    by simp
  then show "\<exists>pre post. hay = pre @ needle @ post"
    by blast
next
  assume "\<exists>pre post. hay = pre @ needle @ post"
  then obtain pre post where h: "hay = pre @ needle @ post"
    by blast
  then have "take (length needle) (drop (length pre) hay) = needle"
    by simp
  moreover from h have "length pre \<in> set [0..<Suc (length hay)]"
    by simp
  ultimately show "includes_str hay needle"
    unfolding includes_str_def list_ex_iff by blast
qed

lemma includes_lower_iff:
  "includes_str (toLowerCase t) (toLowerCase s) \<longleftrightarrow> spec_contains_ci t s"
proof
  assume "includes_str (toLowerCase t) (toLowerCase s)"
  then obtain pre post where
    "map toLowerCase_char t = pre @ map toLowerCase_char s @ post"
    unfolding includes_str_iff toLowerCase_def by blast
  then have "\<exists>t1 t2. t = t1 @ t2 \<and> pre = map toLowerCase_char t1
      \<and> map toLowerCase_char s @ post = map toLowerCase_char t2"
    by (simp only: map_eq_append_conv)
  then obtain t1 t2 where t: "t = t1 @ t2"
    and t2: "map toLowerCase_char t2 = map toLowerCase_char s @ post"
    by auto
  from t2 have "\<exists>mid t3. t2 = mid @ t3 \<and> map toLowerCase_char s = map toLowerCase_char mid
      \<and> post = map toLowerCase_char t3"
    by (simp only: map_eq_append_conv)
  then obtain mid t3 where "t2 = mid @ t3"
    and "map toLowerCase_char mid = map toLowerCase_char s"
    by auto
  with t show "spec_contains_ci t s"
    unfolding spec_contains_ci_def by blast
next
  assume "spec_contains_ci t s"
  then obtain pre mid post where "t = pre @ mid @ post"
    and "map toLowerCase_char mid = map toLowerCase_char s"
    unfolding spec_contains_ci_def by blast
  then have "toLowerCase t =
      map toLowerCase_char pre @ toLowerCase s @ map toLowerCase_char post"
    by (simp add: toLowerCase_def)
  then show "includes_str (toLowerCase t) (toLowerCase s)"
    unfolding includes_str_iff by blast
qed

lemma empty_search_contained: "spec_contains_ci t []"
  unfolding spec_contains_ci_def by (rule exI [of _ t], rule exI [of _ "[]"]) simp

lemma matches_iff_spec_included:
  "matchesSearch s lead \<and> matchesStatus f lead \<longleftrightarrow> spec_included s f lead"
  using empty_search_contained [of "lead_name lead"]
  by (auto simp: matchesSearch_def matchesStatus_def spec_included_def includes_lower_iff)

lemma filterLeads_spec: "filterLeads s f ls = filter (spec_included s f) ls"
  by (simp add: filterLeads_def matches_iff_spec_included)

lemma spec_included_no_filter: "spec_included [] All lead"
  by (simp add: spec_included_def)

lemma mset_insertSorted: "mset (insertSorted cmp x ys) = add_mset x (mset ys)"
  by (induction ys) simp_all

lemma mset_Array_sort: "mset (Array_sort cmp xs) = mset xs"
  by (induction xs) (simp_all add: Array_sort_def mset_insertSorted)

lemma set_Array_sort: "set (Array_sort cmp xs) = set xs"
  using mset_Array_sort [of cmp xs] by (metis set_mset_mset)

lemma Array_sort_Cons: "Array_sort cmp (x # xs) = insertSorted cmp x (Array_sort cmp xs)"
  by (simp add: Array_sort_def)

lemma sorted_insertSorted:
  assumes trans: "\<And>a b c. cmp a b \<le> 0 \<Longrightarrow> cmp b c \<le> 0 \<Longrightarrow> cmp a c \<le> 0"
    and total: "\<And>a b. cmp a b \<le> 0 \<or> cmp b a \<le> 0"
    and "sorted_wrt (\<lambda>a b. cmp a b \<le> 0) ys"
  shows "sorted_wrt (\<lambda>a b. cmp a b \<le> 0) (insertSorted cmp x ys)"
  using assms(3)
proof (induction ys)
  case Nil
  then show ?case by simp
next
  case (Cons y ys)
  show ?case
  proof (cases "cmp x y \<le> 0")
    case True
    with Cons.prems trans show ?thesis
      by (auto simp: set_mset_mset)
  next
    case False
    with total have "cmp y x \<le> 0" by blast
    moreover have "set (insertSorted cmp x ys) = insert x (set ys)"
      using mset_insertSorted [of cmp x ys] by (metis set_mset_add_mset_insert set_mset_mset)
    ultimately show ?thesis
      using False Cons by auto
  qed
qed

lemma sorted_Array_sort:
  assumes "\<And>a b c. cmp a b \<le> 0 \<Longrightarrow> cmp b c \<le> 0 \<Longrightarrow> cmp a c \<le> 0"
    and "\<And>a b. cmp a b \<le> 0 \<or> cmp b a \<le> 0"
  shows "sorted_wrt (\<lambda>a b. cmp a b \<le> 0) (Array_sort cmp xs)"
proof (induction xs)
  case Nil
  then show ?case by (simp add: Array_sort_def)
next
  case (Cons x xs)
  from assms Cons.IH
  have "sorted_wrt (\<lambda>a b. cmp a b \<le> 0) (insertSorted cmp x (Array_sort cmp xs))"
    by (rule sorted_insertSorted)
  then show ?case
    by (simp only: Array_sort_Cons)
qed

lemma Array_sort_sorted_id:
  "sorted_wrt (\<lambda>a b. cmp a b \<le> 0) xs \<Longrightarrow> Array_sort cmp xs = xs"
proof (induction xs)
  case Nil
  then show ?case by (simp add: Array_sort_def)
next
  case (Cons x xs)
  then have "Array_sort cmp xs = xs" by simp
  with Cons.prems show ?case
    unfolding Array_sort_Cons by (cases xs) simp_all
qed

lemma compareValues_le:
  "compareValues d x y \<le> 0 \<longleftrightarrow> (if d = Asc then x \<le> y else y \<le> x)"
  by (cases d) (auto simp: compareValues_def)

lemma compareLeads_trans:
  "compareLeads k d a b \<le> 0 \<Longrightarrow> compareLeads k d b c \<le> 0 \<Longrightarrow> compareLeads k d a c \<le> 0"
  by (cases k) (auto simp: compareValues_le split: if_splits)

lemma compareLeads_total: "compareLeads k d a b \<le> 0 \<or> compareLeads k d b a \<le> 0"
  by (cases k) (auto simp: compareValues_le)

lemma Array_sort_compareLeads_idem:
  "Array_sort (compareLeads k d) (Array_sort (compareLeads k d) xs)
     = Array_sort (compareLeads k d) xs"
  by (rule Array_sort_sorted_id, rule sorted_Array_sort)
    (blast intro: compareLeads_trans, rule compareLeads_total)

lemma set_filteredAndSortedLeads:
  "set (filteredAndSortedLeads ls v)
     = {lead \<in> set ls. spec_included (searchTerm v) (statusFilter v) lead}"
  by (simp add: filteredAndSortedLeads_def set_Array_sort filterLeads_spec)

lemma toLowerCase_unit_of_char:
  "toLowerCase_unit (of_char c) = of_char (toLowerCase_char c)"
proof -
  define n :: nat where "n = of_char c"
  have small: "n < 256"
    unfolding n_def by (rule nat_of_char_less_256)
  then have no_greek: "\<not> isGreekCapital n"
    unfolding isGreekCapital_def by linarith
  let ?capital = "(65 \<le> n \<and> n \<le> 90) \<or> (192 \<le> n \<and> n \<le> 222 \<and> n \<noteq> 215)"
  have char: "toLowerCase_char c = (if ?capital then char_of (n + 32) else c)"
    by (simp add: toLowerCase_char_def Let_def n_def)
  have unit: "toLowerCase_unit n = (if ?capital then n + 32 else n)"
    using no_greek by (simp add: toLowerCase_unit_def)
  show ?thesis
  proof (cases ?capital)
    case True
    then have "n + 32 < 256"
      by linarith
    then have "(of_char (char_of (n + 32)) :: nat) = n + 32"
      by simp
    with True char unit show ?thesis
      unfolding n_def [symmetric] by (simp only: if_True)
  next
    case False
    with char unit show ?thesis
      unfolding n_def [symmetric] by (simp only: if_False n_def)
  qed
qed

lemma lowerFrom_latin1:
  "lowerFrom seen (map of_char s) = map of_char (map toLowerCase_char s)"
proof (induction s arbitrary: seen)
  case Nil
  then show ?case by simp
next
  case (Cons c s)
  have "(of_char c :: nat) < 256"
    by (rule nat_of_char_less_256)
  then have "(of_char c :: nat) \<noteq> 931"
    by linarith
  with Cons show ?case
    by (simp add: toLowerCase_unit_of_char)
qed

lemma toLowerCase_utf16_latin1:
  "toLowerCase_utf16 (map of_char s) = Some (map of_char (toLowerCase s))"
proof -
  have "list_all inRepertoire (map of_char s)"
    by (simp add: list_all_iff inRepertoire_def)
  then show ?thesis
    by (simp add: toLowerCase_utf16_def lowerFrom_latin1 toLowerCase_def)
qed

lemma includes_str_map_inj:
  assumes "inj f"
  shows "includes_str (map f hay) (map f needle) = includes_str hay needle"
proof -
  have "take (length needle) (drop k (map f hay)) = map f needle
      \<longleftrightarrow> take (length needle) (drop k hay) = needle" for k
    using assms by (simp add: drop_map take_map)
  then show ?thesis
    by (simp add: includes_str_def)
qed

lemma inj_unit_of_char: "inj (of_char :: char \<Rightarrow> nat)"
  by (rule injI) simp

lemma filterCallback_utf16_latin1:
  "filterCallback_utf16 (map of_char s) f (map of_char (lead_name lead))
      (map of_char (company lead)) (status lead)
   = Some (matchesSearch s lead \<and> matchesStatus f lead)"
  by (simp add: filterCallback_utf16_def toLowerCase_utf16_latin1
      includes_str_map_inj [OF inj_unit_of_char] matchesSearch_def matchesStatus_def)

lemma empty_search_utf16:
  assumes "list_all inRepertoire name'" "list_all inRepertoire company'"
  shows "filterCallback_utf16 [] All name' company' status' = Some True"
proof -
  have "includes_str xs []" for xs :: "nat list"
    by (simp add: includes_str_def)
  with assms show ?thesis
    by (simp add: filterCallback_utf16_def toLowerCase_utf16_def)
qed

text \<open>
  Claim C3, as the specification states it, fails beyond Latin-1. The name
  \<open>U+0398 0391 039B 0391 03A3 03A3 0391\<close> contains the search text \<open>U+0391 03A3\<close>
  letter for letter, so also case aside. The sigma that ends the search text
  lower-cases to the final form \<open>U+03C2\<close>, the same sigma inside the name to \<open>U+03C3\<close>,
  and the filter leaves the lead out with the status filter \<open>All\<close>.
\<close>

theorem filter_final_sigma_counterexample:
  "greekName = [920, 913, 923] @ greekSearch @ [931, 913]
   \<and> greekSearch \<noteq> []
   \<and> toLowerCase_utf16 greekName = Some [952, 945, 955, 945, 963, 963, 945]
   \<and> toLowerCase_utf16 greekSearch = Some [945, 962]
   \<and> filterCallback_utf16 greekSearch All greekName [] New = Some False"
proof -
  have n: "toLowerCase_utf16 greekName = Some [952, 945, 955, 945, 963, 963, 945]"
    by code_simp
  have t: "toLowerCase_utf16 greekSearch = Some [945, 962]"
    by code_simp
  have e: "toLowerCase_utf16 [] = Some []"
    by (simp add: toLowerCase_utf16_def)
  have "\<not> includes_str [952, 945, 955, 945, 963, 963, 945] [945, 962 :: nat]"
    by code_simp
  moreover have "\<not> includes_str [] [945, 962 :: nat]"
    by code_simp
  ultimately have "filterCallback_utf16 greekSearch All greekName [] New = Some False"
    by (simp add: filterCallback_utf16_def n t e)
  with n t show ?thesis
    by (simp add: greekName_def greekSearch_def)
qed

text \<open>
  Claim C3, amended to text in the Latin-1 range (every code unit of the names, the
  companies and the search text below 256). A lead is in the filtered projection
  exactly when it is in the collection and (the search text is empty, or its name or
  its company contains the search text as a case-insensitive substring) and (the status
  filter is \<open>All\<close> or equals its status). The filter step keeps exactly these leads, in
  their order, and the sort only rearranges them; the filter callback on code units
  gives the same answer on such text. With the empty search text and the filter \<open>All\<close>
  every lead is included, also for the Greek text that is modelled.
\<close>

theorem filter_includes_exactly:
  "(lead \<in> set (filteredAndSortedLeads ls v) \<longleftrightarrow>
      lead \<in> set ls \<and> spec_included (searchTerm v) (statusFilter v) lead)
   \<and> filterLeads s f ls = filter (spec_included s f) ls
   \<and> mset (filteredAndSortedLeads ls v)
       = mset (filter (spec_included (searchTerm v) (statusFilter v)) ls)
   \<and> (searchTerm v = [] \<and> statusFilter v = All \<longrightarrow>
        filterLeads (searchTerm v) (statusFilter v) ls = ls
        \<and> mset (filteredAndSortedLeads ls v) = mset ls)
   \<and> filterCallback_utf16 (map of_char s) f (map of_char (lead_name lead))
        (map of_char (company lead)) (status lead)
       = Some (spec_included s f lead)
   \<and> (list_all inRepertoire name' \<and> list_all inRepertoire company' \<longrightarrow>
        filterCallback_utf16 [] All name' company' status' = Some True)"
proof -
  have member: "lead \<in> set (filteredAndSortedLeads ls v) \<longleftrightarrow>
      lead \<in> set ls \<and> spec_included (searchTerm v) (statusFilter v) lead"
    by (simp add: set_filteredAndSortedLeads)
  have step: "filterLeads s f ls = filter (spec_included s f) ls"
    by (rule filterLeads_spec)
  have perm: "mset (filteredAndSortedLeads ls v)
       = mset (filter (spec_included (searchTerm v) (statusFilter v)) ls)"
    by (simp add: filteredAndSortedLeads_def mset_Array_sort filterLeads_spec)
  have everything: "searchTerm v = [] \<and> statusFilter v = All \<longrightarrow>
        filterLeads (searchTerm v) (statusFilter v) ls = ls
        \<and> mset (filteredAndSortedLeads ls v) = mset ls"
    by (simp add: filteredAndSortedLeads_def mset_Array_sort filterLeads_spec
        spec_included_no_filter)
  have units: "filterCallback_utf16 (map of_char s) f (map of_char (lead_name lead))
        (map of_char (company lead)) (status lead)
       = Some (spec_included s f lead)"
    by (simp only: filterCallback_utf16_latin1 matches_iff_spec_included)
  have empty: "list_all inRepertoire name' \<and> list_all inRepertoire company' \<longrightarrow>
        filterCallback_utf16 [] All name' company' status' = Some True"
    using empty_search_utf16 [of name' company' status'] by blast
  from member step perm everything units empty show ?thesis by blast
qed

theorem filter_includes_exactly_witness:
  "searchTerm initialView = [] \<and> statusFilter initialView = All
   \<and> mset (filteredAndSortedLeads (leads exampleState) initialView) = mset (leads exampleState)
   \<and> filteredAndSortedLeads (leads exampleState) acmeView = [exampleLead]
   \<and> spec_included ''ACME'' All exampleLead
   \<and> \<not> spec_included ''ACME'' All otherLead
   \<and> list_all inRepertoire greekName
   \<and> filterCallback_utf16 [] All greekName [] New = Some True"
proof -
  have i: "searchTerm initialView = []" "statusFilter initialView = All"
    by (simp_all add: initialView_def)
  have a: "searchTerm acmeView = ''ACME''" "statusFilter acmeView = All"
    by (simp_all add: acmeView_def)
  have l: "leads exampleState = [exampleLead, otherLead]"
    by (simp add: exampleState_def)
  have r: "filteredAndSortedLeads (leads exampleState) acmeView = [exampleLead]"
    unfolding l by code_simp
  from i filter_includes_exactly [of _ "leads exampleState" initialView]
  have m: "mset (filteredAndSortedLeads (leads exampleState) initialView)
      = mset (leads exampleState)"
    by blast
  have "exampleLead \<in> set (filteredAndSortedLeads (leads exampleState) acmeView)"
    by (simp add: r)
  with filter_includes_exactly [of exampleLead "leads exampleState" acmeView]
  have y: "spec_included ''ACME'' All exampleLead"
    by (simp add: a)
  have "otherLead \<noteq> exampleLead"
    by (simp add: exampleLead_def otherLead_def)
  then have "otherLead \<notin> set (filteredAndSortedLeads (leads exampleState) acmeView)"
    by (simp add: r)
  with filter_includes_exactly [of otherLead "leads exampleState" acmeView]
  have n: "\<not> spec_included ''ACME'' All otherLead"
    by (simp add: a l)
  have g: "list_all inRepertoire greekName"
    by code_simp
  have g0: "list_all inRepertoire ([] :: nat list)"
    by simp
  from g g0 filter_includes_exactly [where name' = greekName and company' = "[]" and status' = New]
  have e: "filterCallback_utf16 [] All greekName [] New = Some True"
    by blast
  from i m r y n g e show ?thesis by blast
qed

text \<open>
  Claim C8. Filtering is idempotent: the filter step applied to its own result changes
  nothing, the filter step applied to the filtered and sorted projection changes
  nothing, and the whole projection applied to its own result gives the same sequence.
\<close>

theorem filtering_is_idempotent:
  "filterLeads s f (filterLeads s f ls) = filterLeads s f ls
   \<and> filterLeads (searchTerm v) (statusFilter v) (filteredAndSortedLeads ls v)
       = filteredAndSortedLeads ls v
   \<and> filteredAndSortedLeads (filteredAndSortedLeads ls v) v = filteredAndSortedLeads ls v"
proof -
  have step: "filterLeads s f (filterLeads s f ls) = filterLeads s f ls"
    by (simp add: filterLeads_def)
  have "\<forall>lead \<in> set (filteredAndSortedLeads ls v).
      spec_included (searchTerm v) (statusFilter v) lead"
    by (simp add: set_filteredAndSortedLeads)
  then have kept: "filterLeads (searchTerm v) (statusFilter v) (filteredAndSortedLeads ls v)
       = filteredAndSortedLeads ls v"
    by (simp add: filterLeads_spec filter_id_conv)
  have "filteredAndSortedLeads (filteredAndSortedLeads ls v) v
      = Array_sort (compareLeads (sortBy v) (sortOrder v)) (filteredAndSortedLeads ls v)"
    using kept by (simp add: filteredAndSortedLeads_def [of "filteredAndSortedLeads ls v"])
  also have "\<dots> = filteredAndSortedLeads ls v"
    by (simp add: filteredAndSortedLeads_def [of ls] Array_sort_compareLeads_idem)
  finally show ?thesis
    using step kept by blast
qed

section \<open>Properties of the random amount\<close>

lemma bit_length_le: "n < 2 ^ w \<Longrightarrow> bit_length n \<le> w"
proof (induction n arbitrary: w rule: bit_length.induct)
  case (1 n)
  show ?case
  proof (cases "n = 0")
    case True
    then show ?thesis by (simp add: bit_length.simps)
  next
    case False
    with "1.prems" obtain w' where w: "w = Suc w'"
      by (cases w) auto
    with "1.prems" have "n div 2 < 2 ^ w'"
      by auto
    with "1.IH" False have "bit_length (n div 2) \<le> w'"
      by blast
    with False w show ?thesis
      by (simp add: bit_length.simps [of n])
  qed
qed

lemma round_up_or_down:
  fixes n s :: nat
  assumes "0 < s"
  shows "(if n mod 2 ^ s > 2 ^ (s - 1) \<or> (n mod 2 ^ s = 2 ^ (s - 1) \<and> odd (n div 2 ^ s))
          then n div 2 ^ s + 1 else n div 2 ^ s) * 2 ^ s \<le> n + 2 ^ (s - 1)"
proof -
  have n: "n = n div 2 ^ s * 2 ^ s + n mod 2 ^ s"
    by (rule div_mult_mod_eq [symmetric])
  from assms have two: "(2::nat) ^ s = 2 * 2 ^ (s - 1)"
    by (cases s) simp_all
  let ?up = "n mod 2 ^ s > 2 ^ (s - 1) \<or> (n mod 2 ^ s = 2 ^ (s - 1) \<and> odd (n div 2 ^ s))"
  show ?thesis
  proof (cases ?up)
    case True
    then have "2 ^ (s - 1) \<le> n mod 2 ^ s"
      by auto
    moreover have "(n div 2 ^ s + 1) * 2 ^ s = n div 2 ^ s * 2 ^ s + 2 ^ s"
      by (simp add: algebra_simps)
    ultimately have "(n div 2 ^ s + 1) * 2 ^ s \<le> n + 2 ^ (s - 1)"
      using n two by linarith
    moreover from True have "(if ?up then n div 2 ^ s + 1 else n div 2 ^ s) = n div 2 ^ s + 1"
      by (rule if_P)
    ultimately show ?thesis by (simp only:)
  next
    case False
    from n have "n div 2 ^ s * 2 ^ s \<le> n + 2 ^ (s - 1)"
      by linarith
    moreover from False have "(if ?up then n div 2 ^ s + 1 else n div 2 ^ s) = n div 2 ^ s"
      by (rule if_not_P)
    ultimately show ?thesis by (simp only:)
  qed
qed

lemma round_significand_exact: "n < 2 ^ 53 \<Longrightarrow> round_significand n = n"
  using bit_length_le [of n 53] by (simp add: round_significand_def)

lemma round_significand_upper:
  assumes "n < 2 ^ 70"
  shows "round_significand n \<le> n + 2 ^ 16"
proof (cases "bit_length n \<le> 53")
  case True
  then show ?thesis by (simp add: round_significand_def)
next
  case False
  define s where "s = bit_length n - 53"
  from False have s0: "0 < s" by (simp add: s_def)
  from assms have "bit_length n \<le> 70" by (rule bit_length_le)
  then have "s - 1 \<le> 16" by (simp add: s_def)
  then have "(2::nat) ^ (s - 1) \<le> 2 ^ 16"
    by (rule power_increasing) simp
  moreover from False have "round_significand n =
      (if n mod 2 ^ s > 2 ^ (s - 1) \<or> (n mod 2 ^ s = 2 ^ (s - 1) \<and> odd (n div 2 ^ s))
       then n div 2 ^ s + 1 else n div 2 ^ s) * 2 ^ s"
    by (simp add: round_significand_def Let_def s_def)
  ultimately show ?thesis
    using round_up_or_down [OF s0, of n] by linarith
qed

lemma randomAmount_range:
  assumes "is_random_draw d"
  shows "10000 \<le> randomAmount d" "randomAmount d < 110000"
proof -
  show "10000 \<le> randomAmount d"
    by (simp add: randomAmount_def)
  define m k where "m = mantissa d" and "k = scale d"
  from assms have m53: "m < 2 ^ 53" and mk: "m < 2 ^ k"
    by (simp_all add: is_random_draw_def m_def k_def)
  from m53 have "m * 100000 < 2 ^ 53 * 2 ^ 17"
    by simp
  then have n70: "m * 100000 < 2 ^ 70"
    by simp
  from mk have "m + 1 \<le> 2 ^ k" by simp
  then have "(m + 1) * 100000 \<le> 2 ^ k * 100000"
    by (rule mult_le_mono1)
  then have "m * 100000 + 100000 \<le> 100000 * 2 ^ k"
    by (simp add: algebra_simps)
  moreover from round_significand_upper [OF n70]
  have "round_significand (m * 100000) \<le> m * 100000 + 65536"
    by simp
  ultimately have "round_significand (m * 100000) < 100000 * 2 ^ k"
    by linarith
  then have "round_significand (m * 100000) div 2 ^ k < 100000"
    by (rule less_mult_imp_div_less)
  then show "randomAmount d < 110000"
    by (simp add: randomAmount_def m_def k_def)
qed

lemma randomAmount_attained:
  assumes "10000 \<le> v" "v < 110000"
  shows "\<exists>d. is_random_draw d \<and> randomAmount d = v"
proof -
  define j where "j = nat (v - 10000)"
  define a where "a = j * 2 ^ 32 + 99999"
  define m where "m = a div 100000"
  from assms have j: "j < 100000" and vj: "v = int j + 10000"
    by (simp_all add: j_def)
  have a: "a = m * 100000 + a mod 100000"
    unfolding m_def by (rule div_mult_mod_eq [symmetric])
  have r: "a mod 100000 < 100000"
    by simp
  from a r have lo: "j * 2 ^ 32 \<le> m * 100000"
    unfolding a_def by linarith
  from a have hi: "m * 100000 \<le> j * 2 ^ 32 + 99999"
    unfolding a_def by linarith
  from j have "j * 2 ^ 32 \<le> 99999 * 2 ^ 32"
    by simp
  with hi have top: "m * 100000 < 100000 * 2 ^ 32"
    by simp
  then have m32: "m < 2 ^ 32"
    by simp
  then have draw: "is_random_draw \<lparr>mantissa = m, scale = 32\<rparr>"
    by (simp add: is_random_draw_def)
  from top have "m * 100000 < 2 ^ 53"
    by simp
  then have exact: "round_significand (m * 100000) = m * 100000"
    by (rule round_significand_exact)
  from hi have "m * 100000 < (j + 1) * 2 ^ 32"
    by simp
  with lo have "m * 100000 div 2 ^ 32 = j"
    by (simp add: div_nat_eqI mult.commute)
  with exact vj have "randomAmount \<lparr>mantissa = m, scale = 32\<rparr> = v"
    by (simp add: randomAmount_def)
  with draw show ?thesis by blast
qed

text \<open>
  Claim C9. The amount of a new opportunity is \<open>floor(r * 100000) + 10000\<close> for the
  random draw \<open>r\<close>. For every double \<open>r\<close> in \<open>[0, 1)\<close>, with the product rounded as
  the double multiplication rounds it, the amount is an integer from 10000 up to
  109999, and every integer in that range is the amount for some draw.
\<close>

theorem random_amount_in_range:
  "amount (newOpportunity d X s) = Some (randomAmount d)
   \<and> (is_random_draw d \<longrightarrow> 10000 \<le> randomAmount d \<and> randomAmount d < 110000)
   \<and> (10000 \<le> v \<and> v < 110000 \<longrightarrow> (\<exists>d'. is_random_draw d' \<and> randomAmount d' = v))"
  using randomAmount_range [of d] randomAmount_attained [of v]
  by (simp add: newOpportunity_def)

theorem random_amount_in_range_witness:
  "is_random_draw maxDraw
   \<and> 10000 \<le> randomAmount maxDraw \<and> randomAmount maxDraw < 110000
   \<and> randomAmount maxDraw = 109999
   \<and> randomAmount halfDraw = 60000
   \<and> (\<exists>d'. is_random_draw d' \<and> randomAmount d' = 10000)
   \<and> (\<exists>d'. is_random_draw d' \<and> randomAmount d' = 109999)"
proof -
  have m: "is_random_draw maxDraw"
    by (simp add: is_random_draw_def maxDraw_def)
  with random_amount_in_range [of maxDraw]
  have b: "10000 \<le> randomAmount maxDraw \<and> randomAmount maxDraw < 110000"
    by blast
  have e: "randomAmount maxDraw = 109999"
    by (simp add: randomAmount_def maxDraw_def round_significand_def bit_length.simps)
  have h: "randomAmount halfDraw = 60000"
    by (simp add: randomAmount_def halfDraw_def round_significand_def bit_length.simps)
  from random_amount_in_range [of _ _ _ 10000]
  have lo: "\<exists>d'. is_random_draw d' \<and> randomAmount d' = 10000"
    by simp
  from random_amount_in_range [of _ _ _ 109999]
  have hi: "\<exists>d'. is_random_draw d' \<and> randomAmount d' = 109999"
    by simp
  from m b e h lo hi show ?thesis by blast
qed

section \<open>Properties of the email check and of Save\<close>

lemma atomMatches_notSpaceNorAt:
  "atomMatches notSpaceNorAt c \<longleftrightarrow> \<not> isWhiteSpace c \<and> c \<noteq> CHR ''@''"
  by (simp add: notSpaceNorAt_def)

lemma spec_plain_iff: "spec_plain u \<longleftrightarrow> u \<noteq> [] \<and> list_all (atomMatches notSpaceNorAt) u"
proof -
  have "atomMatches notSpaceNorAt = (\<lambda>c. \<not> isWhiteSpace c \<and> c \<noteq> CHR ''@'')"
    by (simp add: fun_eq_iff atomMatches_notSpaceNorAt)
  then show ?thesis
    by (simp add: spec_plain_def)
qed

lemma matchFrom_OneOrMore:
  "matchFrom (OneOrMore a # ts) i rest \<longleftrightarrow>
     (\<exists>u v. rest = u @ v \<and> u \<noteq> [] \<and> list_all (atomMatches a) u
        \<and> matchFrom ts (i + length u) v)"
proof (induction rest arbitrary: i)
  case Nil
  then show ?case by simp
next
  case (Cons c cs)
  show ?case
  proof
    assume "matchFrom (OneOrMore a # ts) i (c # cs)"
    then have c: "atomMatches a c"
      and more: "matchFrom (OneOrMore a # ts) (Suc i) cs \<or> matchFrom ts (Suc i) cs"
      by simp_all
    from more show "\<exists>u v. c # cs = u @ v \<and> u \<noteq> [] \<and> list_all (atomMatches a) u
        \<and> matchFrom ts (i + length u) v"
    proof
      assume "matchFrom (OneOrMore a # ts) (Suc i) cs"
      with Cons.IH obtain u v where "cs = u @ v" "list_all (atomMatches a) u"
        "matchFrom ts (Suc i + length u) v"
        by blast
      with c have "c # cs = (c # u) @ v \<and> c # u \<noteq> [] \<and> list_all (atomMatches a) (c # u)
          \<and> matchFrom ts (i + length (c # u)) v"
        by simp
      then show ?thesis by blast
    next
      assume "matchFrom ts (Suc i) cs"
      with c have "c # cs = [c] @ cs \<and> [c] \<noteq> [] \<and> list_all (atomMatches a) [c]
          \<and> matchFrom ts (i + length [c]) cs"
        by simp
      then show ?thesis by blast
    qed
  next
    assume "\<exists>u v. c # cs = u @ v \<and> u \<noteq> [] \<and> list_all (atomMatches a) u
        \<and> matchFrom ts (i + length u) v"
    then obtain u v where eq: "c # cs = u @ v" and "u \<noteq> []"
      and all: "list_all (atomMatches a) u" and rest: "matchFrom ts (i + length u) v"
      by blast
    then obtain u' where u: "u = c # u'"
      by (cases u) auto
    with eq have cs: "cs = u' @ v" by simp
    from all u have c: "atomMatches a c" and all': "list_all (atomMatches a) u'"
      by simp_all
    show "matchFrom (OneOrMore a # ts) i (c # cs)"
    proof (cases "u' = []")
      case True
      with rest u cs c show ?thesis by simp
    next
      case False
      with cs all' rest u have "\<exists>u v. cs = u @ v \<and> u \<noteq> [] \<and> list_all (atomMatches a) u
          \<and> matchFrom ts (Suc i + length u) v"
        by auto
      with Cons.IH have "matchFrom (OneOrMore a # ts) (Suc i) cs"
        by blast
      with c show ?thesis by simp
    qed
  qed
qed

lemma matchFrom_Once:
  "matchFrom (Once a # ts) i rest \<longleftrightarrow>
     (\<exists>c cs. rest = c # cs \<and> atomMatches a c \<and> matchFrom ts (Suc i) cs)"
  by (cases rest) simp_all

lemma regexTest_InputStart: "regexTest (InputStart # ts) s \<longleftrightarrow> matchFrom ts 0 s"
proof
  assume "regexTest (InputStart # ts) s"
  then obtain k where "matchFrom (InputStart # ts) k (drop k s)"
    by (auto simp: regexTest_def list_ex_iff)
  then show "matchFrom ts 0 s" by auto
next
  assume "matchFrom ts 0 s"
  then have "matchFrom (InputStart # ts) 0 (drop 0 s)" by simp
  moreover have "0 \<in> set [0..<Suc (length s)]" by simp
  ultimately show "regexTest (InputStart # ts) s"
    unfolding regexTest_def list_ex_iff by blast
qed

lemma matchFrom_tld:
  "matchFrom [OneOrMore notSpaceNorAt, InputEnd] k w \<longleftrightarrow> spec_plain w"
proof -
  have "matchFrom [OneOrMore notSpaceNorAt, InputEnd] k w \<longleftrightarrow>
      (\<exists>u v. w = u @ v \<and> u \<noteq> [] \<and> list_all (atomMatches notSpaceNorAt) u \<and> v = [])"
    by (simp add: matchFrom_OneOrMore)
  also have "\<dots> \<longleftrightarrow> spec_plain w"
    by (auto simp: spec_plain_iff)
  finally show ?thesis .
qed

lemma matchFrom_dot_tld:
  "matchFrom [Once (PatternChar (CHR ''.'')), OneOrMore notSpaceNorAt, InputEnd] k w \<longleftrightarrow>
     (\<exists>c. w = CHR ''.'' # c \<and> spec_plain c)"
proof -
  have "matchFrom [Once (PatternChar (CHR ''.'')), OneOrMore notSpaceNorAt, InputEnd] k w \<longleftrightarrow>
      (\<exists>x c. w = x # c \<and> atomMatches (PatternChar (CHR ''.'')) x
         \<and> matchFrom [OneOrMore notSpaceNorAt, InputEnd] (Suc k) c)"
    by (rule matchFrom_Once)
  also have "\<dots> \<longleftrightarrow> (\<exists>c. w = CHR ''.'' # c \<and> spec_plain c)"
    by (auto simp: matchFrom_tld)
  finally show ?thesis .
qed

lemma matchFrom_domain:
  "matchFrom [OneOrMore notSpaceNorAt, Once (PatternChar (CHR ''.'')),
      OneOrMore notSpaceNorAt, InputEnd] k w \<longleftrightarrow>
     (\<exists>b c. w = b @ CHR ''.'' # c \<and> spec_plain b \<and> spec_plain c)"
proof -
  have "matchFrom [OneOrMore notSpaceNorAt, Once (PatternChar (CHR ''.'')),
      OneOrMore notSpaceNorAt, InputEnd] k w \<longleftrightarrow>
      (\<exists>u v. w = u @ v \<and> u \<noteq> [] \<and> list_all (atomMatches notSpaceNorAt) u
         \<and> matchFrom [Once (PatternChar (CHR ''.'')), OneOrMore notSpaceNorAt, InputEnd]
              (k + length u) v)"
    by (rule matchFrom_OneOrMore)
  also have "\<dots> \<longleftrightarrow> (\<exists>b c. w = b @ CHR ''.'' # c \<and> spec_plain b \<and> spec_plain c)"
    unfolding matchFrom_dot_tld spec_plain_iff by blast
  finally show ?thesis .
qed

lemma matchFrom_at_domain:
  "matchFrom [Once (PatternChar (CHR ''@'')), OneOrMore notSpaceNorAt,
      Once (PatternChar (CHR ''.'')), OneOrMore notSpaceNorAt, InputEnd] k w \<longleftrightarrow>
     (\<exists>b c. w = CHR ''@'' # b @ CHR ''.'' # c \<and> spec_plain b \<and> spec_plain c)"
proof -
  have "matchFrom [Once (PatternChar (CHR ''@'')), OneOrMore notSpaceNorAt,
      Once (PatternChar (CHR ''.'')), OneOrMore notSpaceNorAt, InputEnd] k w \<longleftrightarrow>
      (\<exists>x v. w = x # v \<and> atomMatches (PatternChar (CHR ''@'')) x
         \<and> matchFrom [OneOrMore notSpaceNorAt, Once (PatternChar (CHR ''.'')),
              OneOrMore notSpaceNorAt, InputEnd] (Suc k) v)"
    by (rule matchFrom_Once)
  also have "\<dots> \<longleftrightarrow>
      (\<exists>b c. w = CHR ''@'' # b @ CHR ''.'' # c \<and> spec_plain b \<and> spec_plain c)"
    unfolding matchFrom_domain by auto
  finally show ?thesis .
qed

lemma validateEmail_iff_shape: "validateEmail e \<longleftrightarrow> spec_email_shape e"
proof -
  have "validateEmail e \<longleftrightarrow>
      matchFrom [OneOrMore notSpaceNorAt, Once (PatternChar (CHR ''@'')),
        OneOrMore notSpaceNorAt, Once (PatternChar (CHR ''.'')),
        OneOrMore notSpaceNorAt, InputEnd] 0 e"
    by (simp only: validateEmail_def emailRegex_def regexTest_InputStart)
  also have "\<dots> \<longleftrightarrow>
      (\<exists>u v. e = u @ v \<and> u \<noteq> [] \<and> list_all (atomMatches notSpaceNorAt) u
         \<and> matchFrom [Once (PatternChar (CHR ''@'')), OneOrMore notSpaceNorAt,
              Once (PatternChar (CHR ''.'')), OneOrMore notSpaceNorAt, InputEnd]
              (0 + length u) v)"
    by (rule matchFrom_OneOrMore)
  also have "\<dots> \<longleftrightarrow>
      (\<exists>a b c. e = a @ CHR ''@'' # b @ CHR ''.'' # c
         \<and> spec_plain a \<and> spec_plain b \<and> spec_plain c)"
    unfolding matchFrom_at_domain spec_plain_iff by blast
  also have "\<dots> \<longleftrightarrow> spec_email_shape e"
    by (simp add: spec_email_shape_def)
  finally show ?thesis .
qed

lemma handleSave_rejected:
  assumes "\<not> validateEmail (email (editedLead p))"
  shows "handleSave onUpdate rnd (p, parent)
    = (p\<lparr>errors_email := Some ''Please enter a valid email address''\<rparr>, parent)"
  using assms by (simp add: handleSave_def)

lemma handleSave_accepted:
  assumes "validateEmail (email (editedLead p))"
  shows "errors_email (fst (handleSave onUpdate rnd (p, parent)))
    \<noteq> Some ''Please enter a valid email address''"
  using assms by (simp add: handleSave_def)

text \<open>
  Claim C5. The regular expression accepts exactly the strings of the shape the
  specification describes. Save ends with the field error
  \<open>Please enter a valid email address\<close> exactly when the buffer's email does not have
  that shape; then nothing else of the panel changes, so it stays in Editing with the
  same buffer, and the parent's state is the one before, whatever the update callback
  is: Update lead is not invoked. The email \<open>not-an-email\<close> is rejected.
\<close>

theorem save_rejects_malformed_email:
  "validateEmail e = spec_email_shape e
   \<and> (errors_email (fst (handleSave onUpdate rnd (p, parent)))
        = Some ''Please enter a valid email address''
      \<longleftrightarrow> \<not> spec_email_shape (email (editedLead p)))
   \<and> (\<not> spec_email_shape (email (editedLead p)) \<longrightarrow>
        handleSave onUpdate rnd (p, parent)
          = (p\<lparr>errors_email := Some ''Please enter a valid email address''\<rparr>, parent)
        \<and> snd (handleSave onUpdate rnd (p, parent)) = parent
        \<and> isEditing (fst (handleSave onUpdate rnd (p, parent))) = isEditing p
        \<and> editedLead (fst (handleSave onUpdate rnd (p, parent))) = editedLead p)
   \<and> \<not> validateEmail ''not-an-email''"
proof -
  have shape: "validateEmail e = spec_email_shape e"
    by (rule validateEmail_iff_shape)
  have exactly: "errors_email (fst (handleSave onUpdate rnd (p, parent)))
        = Some ''Please enter a valid email address''
      \<longleftrightarrow> \<not> spec_email_shape (email (editedLead p))"
  proof (cases "validateEmail (email (editedLead p))")
    case True
    with handleSave_accepted [OF True, of onUpdate rnd parent] show ?thesis
      by (simp add: validateEmail_iff_shape)
  next
    case False
    with handleSave_rejected [OF False, of onUpdate rnd parent] show ?thesis
      by (simp add: validateEmail_iff_shape)
  qed
  have rejected: "\<not> spec_email_shape (email (editedLead p)) \<longrightarrow>
        handleSave onUpdate rnd (p, parent)
          = (p\<lparr>errors_email := Some ''Please enter a valid email address''\<rparr>, parent)
        \<and> snd (handleSave onUpdate rnd (p, parent)) = parent
        \<and> isEditing (fst (handleSave onUpdate rnd (p, parent))) = isEditing p
        \<and> editedLead (fst (handleSave onUpdate rnd (p, parent))) = editedLead p"
    using handleSave_rejected [of p onUpdate rnd parent]
    by (simp add: validateEmail_iff_shape)
  have scenario: "\<not> validateEmail ''not-an-email''"
    by code_simp
  from shape exactly rejected scenario show ?thesis by blast
qed

theorem save_rejects_malformed_email_witness:
  "email (editedLead editingPanel) = ''not-an-email''
   \<and> \<not> validateEmail ''not-an-email''
   \<and> isEditing editingPanel
   \<and> handleSave handleLeadUpdate halfDraw (editingPanel, exampleState)
       = (editingPanel\<lparr>errors_email := Some ''Please enter a valid email address''\<rparr>,
          exampleState)
   \<and> isEditing (fst (handleSave handleLeadUpdate halfDraw (editingPanel, exampleState)))
   \<and> validateEmail ''contact@acme.example''"
proof -
  have e: "email (editedLead editingPanel) = ''not-an-email''"
    and i: "isEditing editingPanel"
    by (simp_all add: editingPanel_def)
  note t = save_rejects_malformed_email
    [of "''not-an-email''" handleLeadUpdate halfDraw editingPanel exampleState]
  from t have n: "\<not> validateEmail ''not-an-email''"
    by blast
  from t have "validateEmail ''not-an-email'' = spec_email_shape ''not-an-email''"
    by blast
  with n have "\<not> spec_email_shape ''not-an-email''"
    by simp
  then have "\<not> spec_email_shape (email (editedLead editingPanel))"
    unfolding e .
  with t have r: "handleSave handleLeadUpdate halfDraw (editingPanel, exampleState)
       = (editingPanel\<lparr>errors_email := Some ''Please enter a valid email address''\<rparr>,
          exampleState)"
    by blast
  from r i have k: "isEditing (fst (handleSave handleLeadUpdate halfDraw (editingPanel, exampleState)))"
    by simp
  have v: "validateEmail ''contact@acme.example''"
    by code_simp
  from e n i r k v show ?thesis by blast
qed

end
